theory Spec2Isabelle
  imports Complex_Main "HOL-Library.Log_Nat"
begin

section \<open>The embedding and decoding layer of \<open>find_stock_combinations_LLL\<close>\<close>

text \<open>
  The notebook \<open>LLL_in_finance.ipynb\<close> holds one function of the core,
  \<open>find_stock_combinations_LLL\<close>:
  \<^verbatim>\<open>
  def find_stock_combinations_LLL(risk_matrix):
      scale = 1e6
      basis = np.round(risk_matrix.values * scale).astype(int)
      n_rows, n_cols = basis.shape
      np.random.seed(42)  # For reproducibility
      pad = np.random.randint(0, 2, size=(n_rows, n_rows - n_cols))
      basis = np.hstack([basis, pad])
      R = IntegerMatrix.from_matrix(basis)
      U = IntegerMatrix.identity(R.nrows)
      LLL.reduction(R, U)
      z = np.zeros((risk_matrix.shape[0], risk_matrix.shape[0]), dtype=int)
      _ = U.to_matrix(z)
      stock_combinations = {
          i: { risk_matrix.index[j]: z[i, j] for j in range(len(z[i])) if z[i, j] != 0 }
          for i in range(z.shape[0]) }
      return stock_combinations
  \<close>
  Its first six lines are the specification's \<open>embed\<close>, its last statement is the
  specification's \<open>decode\<close>. The two literals of the first part, \<open>scale = 1e6\<close> and the
  seed \<open>42\<close>, are arguments of the model's \<open>embed\<close>; \<open>find_stock_combinations_LLL\<close>
  passes the source's values.
\<close>

subsection \<open>Binary64 arithmetic\<close>

text \<open>
  A finite double is the rational it denotes; \<open>None\<close> is a value that is not finite.
  \<open>float64_round\<close> is rounding to the nearest double, ties to the even significand:
  53 significant bits, and a quantum of \<open>2 ^ - 1074\<close> in the subnormal range.
\<close>

type_synonym float64 = "rat option"

definition pow2 :: "int \<Rightarrow> rat" where
  "pow2 e = (if 0 \<le> e then 2 ^ nat e else 1 / 2 ^ nat (- e))"

definition round_half_even :: "rat \<Rightarrow> int" where
  "round_half_even r =
     (let f = \<lfloor>r\<rfloor>; d = r - of_int f
      in if d < 1 / 2 then f
         else if 1 / 2 < d then f + 1
         else if even f then f else f + 1)"

definition float64_exponent :: "rat \<Rightarrow> int" where
  \<comment> \<open>the integer \<open>e\<close> with \<open>2 ^ e \<le> \<bar>x\<bar> < 2 ^ (e + 1)\<close>, for \<open>x \<noteq> 0\<close>\<close>
  "float64_exponent x =
     (let (p, q) = quotient_of \<bar>x\<bar>; a = bitlen p - bitlen q
      in if pow2 a \<le> \<bar>x\<bar> then a else a - 1)"

definition float64_round :: "rat \<Rightarrow> float64" where
  "float64_round x =
     (if x = 0 then Some 0
      else let q = max (float64_exponent x - 52) (- 1074);
               r = of_int (round_half_even (x / pow2 q)) * pow2 q
           in if \<bar>r\<bar> < 2 ^ 1024 then Some r else None)"

definition float64_mul :: "rat \<Rightarrow> rat \<Rightarrow> float64" where
  \<comment> \<open>\<open>risk_matrix.values * scale\<close>, one entry: the exact product, rounded once\<close>
  "float64_mul x y = float64_round (x * y)"

definition np_round :: "float64 \<Rightarrow> float64" where
  \<comment> \<open>\<open>np.round\<close> with no decimals is \<open>rint\<close>: the nearest integer, ties to even\<close>
  "np_round v = map_option (\<lambda>r. of_int (round_half_even r)) v"

definition trunc_toward_zero :: "rat \<Rightarrow> int" where
  "trunc_toward_zero r = (if 0 \<le> r then \<lfloor>r\<rfloor> else \<lceil>r\<rceil>)"

definition astype_int :: "float64 \<Rightarrow> int" where
  \<comment> \<open>\<open>.astype(int)\<close>: the C conversion of a double to a 64-bit integer. It truncates; for
      a value outside the 64-bit range, C leaves the result undefined, and the conversion
      instruction of x86-64 returns \<open>- 2 ^ 63\<close>, which is what the model returns.\<close>
  "astype_int v =
     (case v of
        None \<Rightarrow> - (2 ^ 63)
      | Some r \<Rightarrow> if - (2 ^ 63) \<le> r \<and> r < 2 ^ 63 then trunc_toward_zero r else - (2 ^ 63))"

definition scaled_entry :: "rat \<Rightarrow> rat \<Rightarrow> int" where
  \<comment> \<open>one entry of \<open>np.round(risk_matrix.values * scale).astype(int)\<close>\<close>
  "scaled_entry scale x = astype_int (np_round (float64_mul x scale))"

definition int64_castable :: "rat \<Rightarrow> rat \<Rightarrow> bool" where
  \<comment> \<open>the scaled and rounded entry is a finite double inside the 64-bit range\<close>
  "int64_castable scale x =
     (case np_round (float64_mul x scale) of
        None \<Rightarrow> False
      | Some r \<Rightarrow> - (2 ^ 63) \<le> r \<and> r < 2 ^ 63)"

subsection \<open>The data frame and numpy's global generator\<close>

datatype error = ValueError | IndexError | LibraryError

record risk_matrix =
  index :: "string list"
  n_columns :: nat
  values_arr :: "rat list list"

definition shape :: "risk_matrix \<Rightarrow> nat \<times> nat" where
  "shape rm = (length (index rm), n_columns rm)"

definition wf_risk_matrix :: "risk_matrix \<Rightarrow> bool" where
  \<comment> \<open>a data frame is rectangular: one row of values per label, one value per column\<close>
  "wf_risk_matrix rm \<longleftrightarrow>
     length (values_arr rm) = length (index rm) \<and>
     list_all (\<lambda>row. length row = n_columns rm) (values_arr rm)"

text \<open>
  \<open>np.random\<close> is one generator shared by the whole process. Its state is determined
  by the seed it was last given and the number of 32-bit outputs drawn since; the model
  keeps these two. The generator's output function is not part of the repository: it is
  the argument \<open>gen\<close>, where \<open>gen s n\<close> is the lowest bit of output \<open>n\<close> after seeding
  with \<open>s\<close>. \<open>randint(0, 2, size)\<close> masks one output per entry and fills the array row
  by row.
\<close>

datatype np_random_state = RandomState (seed_of: int) (drawn: nat)

type_synonym bitgen = "int \<Rightarrow> nat \<Rightarrow> bool"

definition np_random_seed :: "int \<Rightarrow> np_random_state \<Rightarrow> (error + unit) \<times> np_random_state" where
  "np_random_seed s g =
     (if 0 \<le> s \<and> s < 2 ^ 32 then (Inr (), RandomState s 0) else (Inl ValueError, g))"

definition np_random_randint_0_2 ::
  "bitgen \<Rightarrow> nat \<Rightarrow> int \<Rightarrow> np_random_state \<Rightarrow> (error + int list list) \<times> np_random_state" where
  \<comment> \<open>\<open>np.random.randint(0, 2, size=(rows, cols))\<close>; a negative dimension raises\<close>
  "np_random_randint_0_2 gen rows cols g =
     (if cols < 0 then (Inl ValueError, g)
      else let c = nat cols
           in (Inr (map (\<lambda>i. map (\<lambda>j. of_bool (gen (seed_of g) (drawn g + i * c + j))) [0..<c])
                      [0..<rows]),
               RandomState (seed_of g) (drawn g + rows * c)))"

definition hstack :: "int list list \<Rightarrow> int list list \<Rightarrow> int list list" where
  "hstack a b = map2 (@) a b"

definition all_castable :: "rat \<Rightarrow> risk_matrix \<Rightarrow> bool" where
  \<comment> \<open>every scaled entry stays inside the 64-bit range\<close>
  "all_castable scale rm = list_all (list_all (int64_castable scale)) (values_arr rm)"

subsection \<open>\<open>embed\<close>: lines 1 to 6 of the function\<close>

definition embed ::
  "bitgen \<Rightarrow> rat \<Rightarrow> int \<Rightarrow> risk_matrix \<Rightarrow> np_random_state
     \<Rightarrow> (error + int list list) \<times> np_random_state" where
  "embed gen scale pad_seed rm g =
     (let basis = map (map (scaled_entry scale)) (values_arr rm);
          (n_rows, n_cols) = shape rm
      in case np_random_seed pad_seed g of
           (Inl e, g1) \<Rightarrow> (Inl e, g1)
         | (Inr _, g1) \<Rightarrow>
             (case np_random_randint_0_2 gen n_rows (int n_rows - int n_cols) g1 of
                (Inl e, g2) \<Rightarrow> (Inl e, g2)
              | (Inr pad, g2) \<Rightarrow> (Inr (hstack basis pad), g2)))"

subsection \<open>\<open>decode\<close>: the dictionary comprehension\<close>

text \<open>
  A Python dictionary keeps its keys in insertion order, and storing under a key that is
  present replaces the value where the key stands. The condition of a comprehension is
  evaluated before its key, so \<open>risk_matrix.index[j]\<close> is read for the nonzero entries
  only; it raises \<open>IndexError\<close> past the last label.
\<close>

type_synonym ('k, 'v) pydict = "('k \<times> 'v) list"

fun dict_set :: "'k \<Rightarrow> 'v \<Rightarrow> ('k, 'v) pydict \<Rightarrow> ('k, 'v) pydict" where
  "dict_set k v [] = [(k, v)]"
| "dict_set k v ((k', v') # d) = (if k = k' then (k, v) # d else (k', v') # dict_set k v d)"

fun decode_row :: "string list \<Rightarrow> int list \<Rightarrow> nat list \<Rightarrow> (string, int) pydict
    \<Rightarrow> error + (string, int) pydict" where
  "decode_row ids row [] d = Inr d"
| "decode_row ids row (j # js) d =
     (if row ! j \<noteq> 0
      then (if j < length ids then decode_row ids row js (dict_set (ids ! j) (row ! j) d)
            else Inl IndexError)
      else decode_row ids row js d)"

fun decode_rows :: "string list \<Rightarrow> int list list \<Rightarrow> nat \<Rightarrow> error + (nat, (string, int) pydict) pydict" where
  "decode_rows ids [] i = Inr []"
| "decode_rows ids (row # rows) i =
     (case decode_row ids row [0..<length row] [] of
        Inl e \<Rightarrow> Inl e
      | Inr d \<Rightarrow> (case decode_rows ids rows (Suc i) of
                   Inl e \<Rightarrow> Inl e
                 | Inr ds \<Rightarrow> Inr ((i, d) # ds)))"

definition decode :: "int list list \<Rightarrow> string list \<Rightarrow> error + (nat, (string, int) pydict) pydict" where
  "decode z ids = decode_rows ids z 0"

subsection \<open>The whole function\<close>

text \<open>
  \<open>LLL.reduction\<close> belongs to the library \<open>fpylll\<close>; the function is modelled over any
  reduction \<open>lll\<close> that returns the transformation matrix \<open>U\<close> or fails.
\<close>

definition find_stock_combinations_LLL ::
  "bitgen \<Rightarrow> (int list list \<Rightarrow> error + int list list) \<Rightarrow> risk_matrix \<Rightarrow> np_random_state
     \<Rightarrow> (error + (nat, (string, int) pydict) pydict) \<times> np_random_state" where
  "find_stock_combinations_LLL gen lll rm g =
     (case embed gen (10 ^ 6) 42 rm g of
        (Inl e, g') \<Rightarrow> (Inl e, g')
      | (Inr basis, g') \<Rightarrow>
          (case lll basis of
             Inl e \<Rightarrow> (Inl e, g')
           | Inr z \<Rightarrow> (decode z (index rm), g')))"

subsection \<open>Concrete inputs\<close>

text \<open>
  The inputs at which the theorems below are evaluated. \<open>sample_gen\<close> stands in for the
  generator's output function and \<open>identity_lll\<close> for the library's reduction where a
  closed statement needs one; no general theorem depends on either.
\<close>

definition scenario_D :: risk_matrix where
  "scenario_D = \<lparr>index = [''A'', ''B'', ''C''], n_columns = 2,
                 values_arr = [[1, 0], [0, 1], [1 / 2, 1 / 2]]\<rparr>"

definition sample_gen :: bitgen where
  "sample_gen s n = odd n"

definition zero_rows_D :: risk_matrix where
  "zero_rows_D = \<lparr>index = [''A'', ''B'', ''C''], n_columns = 2,
                 values_arr = [[0, 0], [0, 0], [1, 1]]\<rparr>"

definition wide_matrix :: risk_matrix where
  "wide_matrix = \<lparr>index = [''A''], n_columns = 2, values_arr = [[1, 2]]\<rparr>"

definition halfway_matrix :: risk_matrix where
  "halfway_matrix = \<lparr>index = [''A'', ''B''], n_columns = 2,
                     values_arr = [[1 / 2, 3 / 2], [1 / 128, 3 / 128]]\<rparr>"

definition identity_lll :: "int list list \<Rightarrow> error + int list list" where
  "identity_lll basis =
     Inr (map (\<lambda>i. map (\<lambda>j. if i = j then 1 else 0) [0..<length basis]) [0..<length basis])"

section \<open>The reducer of the specification\<close>

text \<open>
  \<open>LLL.reduction(R, U)\<close> is a call into the library \<open>fpylll\<close>: the repository holds no
  reduction code. The definitions of this section are modelled from the specification
  (sections 3, 4.2, 4.3, 5 and 7), which describes the reducer as a cursor and two named
  phases over an integer \<open>Basis\<close> and a \<open>Transform\<close> that starts as the identity.
\<close>

subsection \<open>Vectors and matrices as lists of rows\<close>

definition dot :: "'a::comm_ring_1 list \<Rightarrow> 'a list \<Rightarrow> 'a" where
  "dot u v = sum_list (map2 (*) u v)"

definition vsub :: "'a::comm_ring_1 list \<Rightarrow> 'a list \<Rightarrow> 'a list" where
  "vsub u v = map2 (-) u v"

definition smult :: "'a::comm_ring_1 \<Rightarrow> 'a list \<Rightarrow> 'a list" where
  "smult c v = map ((*) c) v"

definition rectangular :: "nat \<Rightarrow> 'a list list \<Rightarrow> bool" where
  "rectangular n m \<longleftrightarrow> list_all (\<lambda>row. length row = n) m"

definition square_mat :: "nat \<Rightarrow> 'a list list \<Rightarrow> bool" where
  "square_mat n m \<longleftrightarrow> length m = n \<and> rectangular n m"

definition identity :: "nat \<Rightarrow> int list list" where
  "identity n = map (\<lambda>i. map (\<lambda>j. if i = j then 1 else 0) [0..<n]) [0..<n]"

definition column :: "nat \<Rightarrow> int list list \<Rightarrow> int list" where
  "column j m = map (\<lambda>row. row ! j) m"

definition mat_mul :: "int list list \<Rightarrow> int list list \<Rightarrow> int list list" where
  \<comment> \<open>the product of a matrix with a square matrix \<open>b\<close>\<close>
  "mat_mul a b = map (\<lambda>row. map (\<lambda>j. dot row (column j b)) [0..<length b]) a"

definition del :: "nat \<Rightarrow> 'a list \<Rightarrow> 'a list" where
  "del j xs = take j xs @ drop (Suc j) xs"

text \<open>The integer determinant, by expansion along the first row.\<close>

function det :: "int list list \<Rightarrow> int" where
  "det [] = 1"
| "det (r # rs) = (\<Sum>j\<leftarrow>[0..<length r]. (- 1) ^ j * r ! j * det (map (del j) rs))"
  by pat_completeness auto
termination
  by (relation "measure length") auto

subsection \<open>The elementary operations\<close>

definition row_combine :: "nat \<Rightarrow> nat \<Rightarrow> int \<Rightarrow> int list list \<Rightarrow> int list list" where
  \<comment> \<open>Modelled from the spec: the integer row combination \<open>row_i \<leftarrow> row_i - q \<cdot> row_j\<close>
      (section 4.2), which the reducer applies to \<open>Basis\<close> and \<open>Transform\<close> alike.\<close>
  "row_combine i j q m = m[i := vsub (m ! i) (smult q (m ! j))]"

definition row_swap :: "nat \<Rightarrow> int list list \<Rightarrow> int list list" where
  \<comment> \<open>Modelled from the spec: the swap of rows \<open>k\<close> and \<open>k + 1\<close> (section 4.2).\<close>
  "row_swap k m = m[k := m ! Suc k, Suc k := m ! k]"

subsection \<open>Gram-Schmidt data\<close>

text \<open>
  Modelled from the spec: \<open>GramSchmidtState\<close> (sections 3 and 4.2) holds the
  orthogonalised vectors \<open>b*\<close>, the coefficients \<open>\<mu>\<close> and the squared norms \<open>B\<close> of the
  current basis, with \<open>b_i = b*_i + \<Sum>_{j<i} \<mu>_{i,j} b*_j\<close>; \<open>initialize\<close> computes them
  from scratch in exact rationals. The reducer below reads \<open>\<mu>\<close> and \<open>B\<close> from
  \<open>initialize\<close> on its current basis: by the guarantee of section 4.2 this is the state
  that the incremental updates, defined in the next subsection, maintain. A quotient by a
  zero norm is 0 here; it occurs for bases that are not of full rank only.
\<close>

definition orthogonalize :: "rat list \<Rightarrow> rat list list \<Rightarrow> rat list" where
  \<comment> \<open>\<open>b\<close> minus its components along the vectors already orthogonalised\<close>
  "orthogonalize b ss = foldl (\<lambda>v s. vsub v (smult (dot b s / dot s s) s)) b ss"

fun gso_from :: "rat list list \<Rightarrow> rat list list \<Rightarrow> rat list list" where
  "gso_from acc [] = acc"
| "gso_from acc (b # bs) = gso_from (acc @ [orthogonalize b acc]) bs"

definition gso :: "int list list \<Rightarrow> rat list list" where
  "gso basis = gso_from [] (map (map of_int) basis)"

record gram_schmidt_state =
  gs_ortho :: "rat list list"
  gs_mu :: "rat list list"
  gs_B :: "rat list"

definition initialize :: "int list list \<Rightarrow> gram_schmidt_state" where
  \<comment> \<open>Modelled from the spec: \<open>initialize(basis)\<close> of section 4.2.\<close>
  "initialize basis =
     (let bs = gso basis
      in \<lparr>gs_ortho = bs,
          gs_mu = map (\<lambda>i. map (\<lambda>j. dot (map of_int (basis ! i)) (bs ! j) / dot (bs ! j) (bs ! j))
                             [0..<i]) [0..<length basis],
          gs_B = map (\<lambda>v. dot v v) bs\<rparr>)"

definition mu_at :: "int list list \<Rightarrow> nat \<Rightarrow> nat \<Rightarrow> rat" where
  \<comment> \<open>\<open>\<mu>_{k,j}\<close> of the basis, for \<open>j < k\<close>\<close>
  "mu_at basis k j = gs_mu (initialize basis) ! k ! j"

definition B_at :: "int list list \<Rightarrow> nat \<Rightarrow> rat" where
  \<comment> \<open>\<open>B_k\<close> of the basis\<close>
  "B_at basis k = gs_B (initialize basis) ! k"

definition size_reduced_row :: "int list list \<Rightarrow> nat \<Rightarrow> bool" where
  "size_reduced_row b k = list_all (\<lambda>j. \<bar>mu_at b k j\<bar> \<le> 1 / 2) [0..<k]"

definition lovasz :: "rat \<Rightarrow> int list list \<Rightarrow> nat \<Rightarrow> bool" where
  \<comment> \<open>the Lovasz condition for the pair \<open>(k - 1, k)\<close>; equality satisfies it\<close>
  "lovasz \<delta> b k \<longleftrightarrow> (\<delta> - (mu_at b k (k - 1))\<^sup>2) * B_at b (k - 1) \<le> B_at b k"

definition reduced_upto :: "rat \<Rightarrow> int list list \<Rightarrow> nat \<Rightarrow> bool" where
  \<comment> \<open>rows \<open>0 .. m - 1\<close> are size-reduced and satisfy the Lovasz condition pairwise\<close>
  "reduced_upto \<delta> b m =
     list_all (\<lambda>k. size_reduced_row b k \<and> (k = 0 \<or> lovasz \<delta> b k)) [0..<m]"

definition lll_reduced :: "rat \<Rightarrow> int list list \<Rightarrow> bool" where
  "lll_reduced \<delta> b = reduced_upto \<delta> b (length b)"

subsection \<open>The incremental updates of the Gram-Schmidt data\<close>

text \<open>
  Modelled from the spec: section 4.2 names \<open>update_after_combine(i, j, q)\<close> and
  \<open>update_after_swap(k)\<close> and describes them as the standard incremental update rule for
  one integer row combination and the closed-form update for one swap of adjacent rows,
  without writing the formulas out. The definitions below are that standard rule. After
  \<open>row_i \<leftarrow> row_i - q \<cdot> row_j\<close> with \<open>j < i\<close>, only row \<open>i\<close> of \<open>\<mu>\<close> changes:
  \<open>\<mu>_{i,j}\<close> loses \<open>q\<close> and \<open>\<mu>_{i,l}\<close> loses \<open>q \<cdot> \<mu>_{j,l}\<close> for \<open>l < j\<close>. After the swap of
  rows \<open>k\<close> and \<open>k + 1\<close>, with \<open>m = \<mu>_{k+1,k}\<close>: the new \<open>B_k\<close> is
  \<open>D = B_{k+1} + m\<^sup>2 B_k\<close>, the new \<open>\<mu>_{k+1,k}\<close> is \<open>m B_k / D\<close>, the new \<open>B_{k+1}\<close> is
  \<open>B_k B_{k+1} / D\<close>, rows \<open>k\<close> and \<open>k + 1\<close> of \<open>\<mu>\<close> change places in the columns before
  \<open>k\<close>, and every later row gets new entries in columns \<open>k\<close> and \<open>k + 1\<close>.
\<close>

definition vadd :: "'a::comm_ring_1 list \<Rightarrow> 'a list \<Rightarrow> 'a list" where
  "vadd u v = map2 (+) u v"

definition update_after_combine :: "nat \<Rightarrow> nat \<Rightarrow> int \<Rightarrow> gram_schmidt_state \<Rightarrow> gram_schmidt_state" where
  \<comment> \<open>Modelled from the spec: \<open>update_after_combine(i, j, q)\<close> of section 4.2, the standard
      rule; it adjusts row \<open>i\<close> of \<open>\<mu>\<close> and nothing else.\<close>
  "update_after_combine i j q st =
     (let mu = gs_mu st
      in st\<lparr>gs_mu := mu[i := map (\<lambda>l. if l < j then mu ! i ! l - of_int q * mu ! j ! l
                                      else if l = j then mu ! i ! l - of_int q
                                      else mu ! i ! l) [0..<i]]\<rparr>)"

definition swap_coeff :: "gram_schmidt_state \<Rightarrow> nat \<Rightarrow> rat" where
  \<comment> \<open>\<open>m = \<mu>_{k+1,k}\<close> before the swap\<close>
  "swap_coeff st k = gs_mu st ! Suc k ! k"

definition swap_norm :: "gram_schmidt_state \<Rightarrow> nat \<Rightarrow> rat" where
  \<comment> \<open>\<open>D\<close>, the new \<open>B_k\<close>\<close>
  "swap_norm st k = gs_B st ! Suc k + (swap_coeff st k)\<^sup>2 * gs_B st ! k"

definition swap_back :: "gram_schmidt_state \<Rightarrow> nat \<Rightarrow> rat" where
  \<comment> \<open>the new \<open>\<mu>_{k+1,k}\<close>\<close>
  "swap_back st k = swap_coeff st k * gs_B st ! k / swap_norm st k"

definition swap_upper :: "gram_schmidt_state \<Rightarrow> nat \<Rightarrow> rat list" where
  \<comment> \<open>the new \<open>b*_k\<close>\<close>
  "swap_upper st k = vadd (gs_ortho st ! Suc k) (smult (swap_coeff st k) (gs_ortho st ! k))"

definition swap_lower :: "gram_schmidt_state \<Rightarrow> nat \<Rightarrow> rat list" where
  \<comment> \<open>the new \<open>b*_{k+1}\<close>\<close>
  "swap_lower st k = vsub (gs_ortho st ! k) (smult (swap_back st k) (swap_upper st k))"

definition swap_mu_row :: "gram_schmidt_state \<Rightarrow> nat \<Rightarrow> nat \<Rightarrow> rat list" where
  \<comment> \<open>row \<open>i\<close> of \<open>\<mu>\<close> after the swap of rows \<open>k\<close> and \<open>k + 1\<close>\<close>
  "swap_mu_row st k i =
     (let mu = gs_mu st
      in if i = k then take k (mu ! Suc k)
         else if i = Suc k then mu ! k @ [swap_back st k]
         else if Suc k < i
         then (mu ! i)[k := mu ! i ! Suc k
                             + swap_back st k * (mu ! i ! k - swap_coeff st k * mu ! i ! Suc k),
                       Suc k := mu ! i ! k - swap_coeff st k * mu ! i ! Suc k]
         else mu ! i)"

definition update_after_swap :: "nat \<Rightarrow> gram_schmidt_state \<Rightarrow> gram_schmidt_state" where
  \<comment> \<open>Modelled from the spec: \<open>update_after_swap(k)\<close> of section 4.2, the closed-form
      update for the swap of rows \<open>k\<close> and \<open>k + 1\<close>.\<close>
  "update_after_swap k st =
     \<lparr>gs_ortho = (gs_ortho st)[k := swap_upper st k, Suc k := swap_lower st k],
      gs_mu = map (swap_mu_row st k) [0..<length (gs_mu st)],
      gs_B = (gs_B st)[k := swap_norm st k, Suc k := gs_B st ! k * gs_B st ! Suc k / swap_norm st k]\<rparr>"

text \<open>
  A mutation of the basis and the update that mirrors it. A row combination takes a
  multiple of an earlier row, as the reducer's do; the basis is of full rank when no
  \<open>B_i\<close> is zero, which is when the quotients of the updates are defined.
\<close>

datatype mutation = Combine nat nat int | Swap nat

fun mutate_basis :: "mutation \<Rightarrow> int list list \<Rightarrow> int list list" where
  "mutate_basis (Combine i j q) b = row_combine i j q b"
| "mutate_basis (Swap k) b = row_swap k b"

fun mutate_state :: "mutation \<Rightarrow> gram_schmidt_state \<Rightarrow> gram_schmidt_state" where
  "mutate_state (Combine i j q) st = update_after_combine i j q st"
| "mutate_state (Swap k) st = update_after_swap k st"

fun valid_mutation :: "nat \<Rightarrow> mutation \<Rightarrow> bool" where
  "valid_mutation n (Combine i j q) \<longleftrightarrow> j < i \<and> i < n"
| "valid_mutation n (Swap k) \<longleftrightarrow> Suc k < n"

definition full_rank :: "int list list \<Rightarrow> bool" where
  "full_rank b = list_all (\<lambda>x. x \<noteq> 0) (gs_B (initialize b))"

subsection \<open>The reduction loop\<close>

text \<open>
  Modelled from the spec: section 4.3 and design note 1 of section 9. The state is the
  basis, the transform, the cursor \<open>k\<close> and the phase. In phase \<open>SizeReduce (Suc j)\<close> the
  reducer examines \<open>\<mu>_{k,j}\<close> on its way from \<open>j = k - 1\<close> down to 0; \<open>SizeReduce 0\<close> ends a
  pass, which is repeated until the row is size-reduced; \<open>Lovasz\<close> is the check that
  advances the cursor or swaps and backs off. One step performs at most one elementary
  operation. The step budget of section 5 counts these steps; when it is used up the
  run fails with \<open>ReductionTimeout\<close>. \<open>round\<close> is the nearest integer, halves upwards.
\<close>

datatype lll_error = RankDeficient nat | InvalidParameter | ReductionTimeout

datatype phase = SizeReduce nat | Lovasz

record lll_state =
  Basis :: "int list list"
  Transform :: "int list list"
  cursor :: nat
  phase :: phase

definition lll_step :: "rat \<Rightarrow> lll_state \<Rightarrow> lll_state" where
  \<comment> \<open>Modelled from the spec: one step of the size-reduction and swap loop of section 4.3.\<close>
  "lll_step \<delta> s =
     (let k = cursor s; b = Basis s
      in case phase s of
           SizeReduce (Suc j) \<Rightarrow>
             (if 1 / 2 < \<bar>mu_at b k j\<bar>
              then s\<lparr>Basis := row_combine k j (round (mu_at b k j)) b,
                     Transform := row_combine k j (round (mu_at b k j)) (Transform s),
                     phase := SizeReduce j\<rparr>
              else s\<lparr>phase := SizeReduce j\<rparr>)
         | SizeReduce 0 \<Rightarrow>
             (if size_reduced_row b k then s\<lparr>phase := Lovasz\<rparr> else s\<lparr>phase := SizeReduce k\<rparr>)
         | Lovasz \<Rightarrow>
             (if lovasz \<delta> b k then s\<lparr>cursor := k + 1, phase := SizeReduce (k + 1)\<rparr>
              else s\<lparr>Basis := row_swap (k - 1) b,
                     Transform := row_swap (k - 1) (Transform s),
                     cursor := max (k - 1) 1,
                     phase := SizeReduce (max (k - 1) 1)\<rparr>))"

definition zero_row :: "int list list \<Rightarrow> nat option" where
  \<comment> \<open>the index of the first row that is the zero vector\<close>
  "zero_row b = (case filter (\<lambda>i. list_all (\<lambda>x. x = 0) (b ! i)) [0..<length b] of
                   [] \<Rightarrow> None | i # _ \<Rightarrow> Some i)"

fun lll_run :: "nat \<Rightarrow> rat \<Rightarrow> lll_state \<Rightarrow> lll_error + (int list list \<times> int list list)" where
  \<comment> \<open>Modelled from the spec: the main loop of section 4.3 with the zero-row policy of
      its edge cases and the step budget of section 5.\<close>
  "lll_run 0 \<delta> s =
     (case zero_row (Basis s) of
        Some i \<Rightarrow> Inl (RankDeficient i)
      | None \<Rightarrow>
          if length (Basis s) \<le> cursor s then Inr (Basis s, Transform s)
          else Inl ReductionTimeout)"
| "lll_run (Suc budget) \<delta> s =
     (case zero_row (Basis s) of
        Some i \<Rightarrow> Inl (RankDeficient i)
      | None \<Rightarrow>
          if length (Basis s) \<le> cursor s then Inr (Basis s, Transform s)
          else lll_run budget \<delta> (lll_step \<delta> s))"

fun lll_trace :: "nat \<Rightarrow> rat \<Rightarrow> lll_state \<Rightarrow> lll_state list" where
  \<comment> \<open>the states \<open>lll_run\<close> goes through, in order\<close>
  "lll_trace 0 \<delta> s = [s]"
| "lll_trace (Suc budget) \<delta> s =
     s # (case zero_row (Basis s) of
            Some i \<Rightarrow> []
          | None \<Rightarrow>
              if length (Basis s) \<le> cursor s then []
              else lll_trace budget \<delta> (lll_step \<delta> s))"

definition initial_state :: "int list list \<Rightarrow> lll_state" where
  "initial_state basis =
     \<lparr>Basis = basis, Transform = identity (length basis), cursor = 1, phase = SizeReduce 1\<rparr>"

definition reduce :: "nat \<Rightarrow> int list list \<Rightarrow> rat \<Rightarrow> lll_error + (int list list \<times> int list list)" where
  \<comment> \<open>Modelled from the spec: \<open>reduce(basis, delta)\<close> of section 6, with the step budget as
      its first argument; \<open>delta\<close> outside \<open>(1/4, 1)\<close> is refused before anything else.\<close>
  "reduce budget basis \<delta> =
     (if 1 / 4 < \<delta> \<and> \<delta> < 1 then lll_run budget \<delta> (initial_state basis) else Inl InvalidParameter)"

subsection \<open>Invariants of the loop\<close>

definition control_ok :: "lll_state \<Rightarrow> bool" where
  "control_ok s \<longleftrightarrow>
     1 \<le> cursor s \<and> (case phase s of SizeReduce c \<Rightarrow> c \<le> cursor s | Lovasz \<Rightarrow> True)"

definition transform_inv :: "int list list \<Rightarrow> lll_state \<Rightarrow> bool" where
  "transform_inv b0 s \<longleftrightarrow>
     square_mat (length b0) (Basis s) \<and> square_mat (length b0) (Transform s) \<and>
     mat_mul (Transform s) b0 = Basis s \<and> \<bar>det (Transform s)\<bar> = 1"

definition reduced_inv :: "rat \<Rightarrow> lll_state \<Rightarrow> bool" where
  "reduced_inv \<delta> s \<longleftrightarrow>
     reduced_upto \<delta> (Basis s) (min (cursor s) (length (Basis s))) \<and>
     (phase s = Lovasz \<longrightarrow> size_reduced_row (Basis s) (cursor s))"

definition potential :: "nat \<Rightarrow> lll_state \<Rightarrow> nat" where
  \<comment> \<open>a bound on the steps a run on a reduced basis still takes\<close>
  "potential n s =
     (n - cursor s) * (n + 3) + (case phase s of SizeReduce c \<Rightarrow> c + 2 | Lovasz \<Rightarrow> 1)"

definition scenario_A :: "int list list" where
  "scenario_A = [[1, 0], [0, 1]]"

definition scenario_C :: "int list list" where
  "scenario_C = [[201, 37], [1, 29]]"

definition basis_3 :: "int list list" where
  "basis_3 = [[1, 1, 1], [- 1, 0, 2], [3, 5, 6]]"

section \<open>Properties of the embedding\<close>

lemma floor_half: "\<lfloor>of_int n + (1::rat) / 2\<rfloor> = n"
  by (rule floor_unique) auto

lemma round_half_even_half: "round_half_even (of_int n + 1 / 2) = (if even n then n else n + 1)"
  by (simp add: round_half_even_def Let_def floor_half)

lemma round_half_even_nearest: "\<bar>of_int (round_half_even r) - r\<bar> \<le> 1 / 2"
proof -
  have "of_int \<lfloor>r\<rfloor> \<le> r" "r < of_int \<lfloor>r\<rfloor> + 1" by linarith+
  then show ?thesis
    unfolding round_half_even_def Let_def by (auto simp: abs_le_iff)
qed

lemma trunc_of_int: "trunc_toward_zero (of_int k) = k"
  by (simp add: trunc_toward_zero_def)

lemma scaled_entry_castable:
  assumes "int64_castable scale x"
  shows "\<exists>v. float64_mul x scale = Some v \<and> scaled_entry scale x = round_half_even v"
proof (cases "float64_mul x scale")
  case None
  with assms show ?thesis by (simp add: int64_castable_def np_round_def)
next
  case (Some v)
  with assms have "- (2 ^ 63) \<le> (of_int (round_half_even v) :: rat)"
    "(of_int (round_half_even v) :: rat) < 2 ^ 63"
    by (simp_all add: int64_castable_def np_round_def)
  with Some show ?thesis
    by (simp add: scaled_entry_def np_round_def astype_int_def trunc_of_int)
qed

lemma scenario_D_wf: "wf_risk_matrix scenario_D" "shape scenario_D = (3, 2)"
  by (simp_all add: scenario_D_def wf_risk_matrix_def shape_def)

lemma upt_3: "[0..<3] = [0, 1, 2]" "[0..<2] = [0, 1]" "[0..<1] = [0]"
  by (simp_all add: upt_rec)

lemma hstack_nth:
  assumes "length a = n" "length b = n"
  shows "hstack a b = map (\<lambda>i. a ! i @ b ! i) [0..<n]"
  using assms by (auto simp: hstack_def list_eq_iff_nth_eq)

lemma embed_value:
  assumes wf: "wf_risk_matrix rm" and sh: "shape rm = (m, d)" and dm: "d \<le> m"
    and seed: "0 \<le> pad_seed" "pad_seed < 2 ^ 32"
  shows "embed gen scale pad_seed rm g =
    (Inr (map (\<lambda>i. map (scaled_entry scale) (values_arr rm ! i)
                   @ map (\<lambda>c. of_bool (gen pad_seed (i * (m - d) + c))) [0..<m - d]) [0..<m]),
     RandomState pad_seed (m * (m - d)))"
proof -
  from wf sh have len: "length (values_arr rm) = m"
    by (simp add: wf_risk_matrix_def shape_def)
  from dm have nn: "\<not> int m - int d < 0" and nat_eq: "nat (int m - int d) = m - d"
    by simp_all
  have hs: "hstack (map (map (scaled_entry scale)) (values_arr rm))
      (map (\<lambda>i. map (\<lambda>j. of_bool (gen pad_seed (i * (m - d) + j))) [0..<m - d]) [0..<m])
    = map (\<lambda>i. map (scaled_entry scale) (values_arr rm ! i)
                   @ map (\<lambda>c. of_bool (gen pad_seed (i * (m - d) + c))) [0..<m - d]) [0..<m]"
    using len by (subst hstack_nth [where n = m]) simp_all
  show ?thesis
    using seed sh nn
    by (simp add: embed_def np_random_seed_def np_random_randint_0_2_def Let_def nat_eq hs)
qed

text \<open>
  Claim C5. For an \<open>m \<times> d\<close> feature matrix with \<open>d \<le> m\<close> whose scaled entries stay in
  the 64-bit range, and a seed the generator accepts, \<open>embed\<close> returns an \<open>m \<times> m\<close> integer
  basis. Its entry \<open>(i, j)\<close> for \<open>j < d\<close> is the double product of the feature and the scale,
  rounded to a nearest integer; its entry \<open>(i, d + c)\<close> for \<open>c < m - d\<close> is bit
  \<open>i * (m - d) + c\<close> of the generator seeded with \<open>pad_seed\<close>, so it is 0 or 1 and depends
  on nothing else. The witness is scenario D of the specification: scale 100, seed 1, first
  two columns \<open>[[100, 0], [0, 100], [50, 50]]\<close>.
\<close>

theorem embed_square_basis:
  assumes wf: "wf_risk_matrix rm" and sh: "shape rm = (m, d)" and dm: "d \<le> m"
    and seed: "0 \<le> pad_seed" "pad_seed < 2 ^ 32"
    and range: "all_castable scale rm"
  shows "\<exists>basis. fst (embed gen scale pad_seed rm g) = Inr basis \<and> length basis = m \<and>
    (\<forall>i<m. length (basis ! i) = m \<and>
       (\<forall>j<d. \<exists>v. float64_mul (values_arr rm ! i ! j) scale = Some v \<and>
                basis ! i ! j = round_half_even v \<and> \<bar>of_int (basis ! i ! j) - v\<bar> \<le> 1 / 2) \<and>
       (\<forall>c<m - d. basis ! i ! (d + c) = of_bool (gen pad_seed (i * (m - d) + c)) \<and>
                basis ! i ! (d + c) \<in> {0, 1}))"
proof -
  let ?basis = "map (\<lambda>i. map (scaled_entry scale) (values_arr rm ! i)
                   @ map (\<lambda>c. of_bool (gen pad_seed (i * (m - d) + c))) [0..<m - d]) [0..<m]"
  have rows: "length (values_arr rm ! i) = d" if "i < m" for i
    using wf sh that by (simp add: wf_risk_matrix_def shape_def list_all_length)
  have scaled: "\<exists>v. float64_mul (values_arr rm ! i ! j) scale = Some v \<and>
      ?basis ! i ! j = round_half_even v \<and> \<bar>of_int (?basis ! i ! j) - v\<bar> \<le> 1 / 2"
    if "i < m" "j < d" for i j
  proof -
    from range that rows [OF that(1)] wf sh
    have "int64_castable scale (values_arr rm ! i ! j)"
      by (simp add: all_castable_def list_all_length wf_risk_matrix_def shape_def)
    then obtain v where v: "float64_mul (values_arr rm ! i ! j) scale = Some v"
      "scaled_entry scale (values_arr rm ! i ! j) = round_half_even v"
      using scaled_entry_castable by blast
    have "?basis ! i ! j = scaled_entry scale (values_arr rm ! i ! j)"
      using that rows [OF that(1)] by (simp add: nth_append)
    with v round_half_even_nearest [of v] show ?thesis by simp
  qed
  have pad: "?basis ! i ! (d + c) = of_bool (gen pad_seed (i * (m - d) + c))"
    if "i < m" "c < m - d" for i c
    using that rows [OF that(1)] by (simp add: nth_append)
  have len: "length (?basis ! i) = m" if "i < m" for i
    using that rows [OF that] dm by simp
  have "fst (embed gen scale pad_seed rm g) = Inr ?basis"
    by (simp add: embed_value [OF wf sh dm seed])
  moreover have "length ?basis = m" by simp
  moreover have "\<forall>i<m. length (?basis ! i) = m \<and>
       (\<forall>j<d. \<exists>v. float64_mul (values_arr rm ! i ! j) scale = Some v \<and>
                ?basis ! i ! j = round_half_even v \<and> \<bar>of_int (?basis ! i ! j) - v\<bar> \<le> 1 / 2) \<and>
       (\<forall>c<m - d. ?basis ! i ! (d + c) = of_bool (gen pad_seed (i * (m - d) + c)) \<and>
                ?basis ! i ! (d + c) \<in> {0, 1})"
    using scaled pad len by (auto simp del: of_bool_eq_iff)
  ultimately show ?thesis by blast
qed


lemma scaled_entry_scenario_D:
  "scaled_entry 100 1 = 100" "scaled_entry 100 0 = 0" "scaled_entry 100 (1 / 2) = 50"
  by code_simp+

lemma castable_scenario_D:
  "int64_castable 100 1" "int64_castable 100 0" "int64_castable 100 (1 / 2)"
  by code_simp+

text \<open>Scenario D for any generator: the third column is the generator's first three bits.\<close>

lemma embed_scenario_D:
  "fst (embed gen 100 1 scenario_D g) =
     Inr [[100, 0, of_bool (gen 1 0)], [0, 100, of_bool (gen 1 1)], [50, 50, of_bool (gen 1 2)]]"
proof -
  have "embed gen 100 1 scenario_D g =
    (Inr (map (\<lambda>i. map (scaled_entry 100) (values_arr scenario_D ! i)
                   @ map (\<lambda>c. of_bool (gen 1 (i * (3 - 2) + c))) [0..<3 - 2]) [0..<3]),
     RandomState 1 (3 * (3 - 2)))"
    by (rule embed_value [OF scenario_D_wf]) simp_all
  moreover have "values_arr scenario_D = [[1, 0], [0, 1], [1 / 2, 1 / 2]]"
    by (simp add: scenario_D_def)
  ultimately show ?thesis
    by (simp add: upt_3 scaled_entry_scenario_D)
qed

theorem embed_square_basis_witness:
  "wf_risk_matrix scenario_D \<and> shape scenario_D = (3, 2) \<and> all_castable 100 scenario_D \<and>
   (\<exists>basis. fst (embed sample_gen 100 1 scenario_D (RandomState 0 0)) = Inr basis \<and>
      length basis = 3 \<and> map (take 2) basis = [[100, 0], [0, 100], [50, 50]] \<and>
      map (drop 2) basis = [[0], [1], [0]])"
proof -
  have cast: "all_castable 100 scenario_D"
    by (simp add: all_castable_def scenario_D_def castable_scenario_D)
  obtain basis where b: "fst (embed sample_gen 100 1 scenario_D (RandomState 0 0)) = Inr basis"
    "length basis = 3"
    using embed_square_basis [OF scenario_D_wf _ _ _ cast, of 1 sample_gen "RandomState 0 0"]
    by auto
  from b(1) have "basis = [[100, 0, 0], [0, 100, 1], [50, 50, 0]]"
    by (simp add: embed_scenario_D sample_gen_def)
  with b scenario_D_wf cast show ?thesis by simp
qed

text \<open>
  Claim C10. The rounding of the embedding is round-half-to-even: where the scaled value of
  an entry (the double product) is \<open>n + 1/2\<close> for an integer \<open>n\<close>, the embedded entry is
  the even one of \<open>n\<close> and \<open>n + 1\<close>. The witness embeds 0.5 to 0 and 1.5 to 2 (rounding
  half away from zero would give 1 and 2).
\<close>

theorem embed_round_half_even:
  assumes wf: "wf_risk_matrix rm" and sh: "shape rm = (m, d)" and dm: "d \<le> m"
    and seed: "0 \<le> pad_seed" "pad_seed < 2 ^ 32"
    and ij: "i < m" "j < d"
    and half: "float64_mul (values_arr rm ! i ! j) scale = Some (of_int n + 1 / 2)"
    and range: "- (2 ^ 63) \<le> n" "n + 1 < 2 ^ 63"
  shows "\<exists>basis. fst (embed gen scale pad_seed rm g) = Inr basis \<and>
           basis ! i ! j = (if even n then n else n + 1)"
proof -
  let ?k = "if even n then n else n + 1"
  have row: "length (values_arr rm ! i) = d"
    using wf sh ij by (simp add: wf_risk_matrix_def shape_def list_all_length)
  from range have "- (2 ^ 63) \<le> ?k" "?k < 2 ^ 63" by auto
  then have "- (2 ^ 63) \<le> (of_int ?k :: rat)" "(of_int ?k :: rat) < 2 ^ 63"
    by (metis of_int_le_iff of_int_minus of_int_numeral of_int_power,
        metis of_int_less_iff of_int_numeral of_int_power)
  then have "scaled_entry scale (values_arr rm ! i ! j) = ?k"
    unfolding scaled_entry_def half np_round_def option.map round_half_even_half astype_int_def
    by (simp only: option.case if_True simp_thms trunc_of_int)
  then show ?thesis
    using ij row by (simp add: embed_value [OF wf sh dm seed] nth_append)
qed

lemma halfway_products:
  "float64_mul (1 / 2) 1 = Some (of_int 0 + 1 / 2)" "float64_mul (3 / 2) 1 = Some (of_int 1 + 1 / 2)"
  by code_simp+

theorem embed_round_half_even_witness:
  "wf_risk_matrix halfway_matrix \<and> shape halfway_matrix = (2, 2) \<and>
   float64_mul (values_arr halfway_matrix ! 0 ! 0) 1 = Some (of_int 0 + 1 / 2) \<and>
   float64_mul (values_arr halfway_matrix ! 0 ! 1) 1 = Some (of_int 1 + 1 / 2) \<and>
   (\<exists>basis. fst (embed sample_gen 1 42 halfway_matrix (RandomState 0 0)) = Inr basis \<and>
      basis ! 0 ! 0 = 0 \<and> basis ! 0 ! 1 = 2)"
proof -
  have wf: "wf_risk_matrix halfway_matrix" and sh: "shape halfway_matrix = (2, 2)"
    by (simp_all add: halfway_matrix_def wf_risk_matrix_def shape_def)
  have p0: "float64_mul (values_arr halfway_matrix ! 0 ! 0) 1 = Some (of_int 0 + 1 / 2)"
    and p1: "float64_mul (values_arr halfway_matrix ! 0 ! 1) 1 = Some (of_int 1 + 1 / 2)"
    by (simp_all only: halfway_matrix_def risk_matrix.simps nth_Cons_0 nth_Cons_Suc One_nat_def
          halfway_products)
  have e0: "\<exists>basis. fst (embed sample_gen 1 42 halfway_matrix (RandomState 0 0)) = Inr basis \<and>
      basis ! 0 ! 0 = (if even (0::int) then 0 else 0 + 1)"
    by (rule embed_round_half_even [OF wf sh _ _ _ _ _ p0]) simp_all
  have e1: "\<exists>basis. fst (embed sample_gen 1 42 halfway_matrix (RandomState 0 0)) = Inr basis \<and>
      basis ! 0 ! 1 = (if even (1::int) then 1 else 1 + 1)"
    by (rule embed_round_half_even [OF wf sh _ _ _ _ _ p1]) simp_all
  from e0 e1 wf sh p0 p1 show ?thesis by auto
qed

section \<open>Properties of the decoding\<close>

lemma dict_set_fresh: "k \<notin> fst ` set d \<Longrightarrow> dict_set k v d = d @ [(k, v)]"
  by (induction d) auto

lemma decode_row_distinct:
  assumes "distinct (map ((!) ids) js)" "\<forall>j\<in>set js. j < length ids"
    and "fst ` set d \<inter> (!) ids ` set js = {}"
  shows "decode_row ids row js d = Inr (d @ [(ids ! j, row ! j). j \<leftarrow> js, row ! j \<noteq> 0])"
  using assms
proof (induction js arbitrary: d)
  case Nil
  then show ?case by simp
next
  case (Cons j js)
  show ?case
  proof (cases "row ! j = 0")
    case True
    with Cons show ?thesis by auto
  next
    case False
    from Cons.prems have fresh: "ids ! j \<notin> fst ` set d" by auto
    have "fst ` set (dict_set (ids ! j) (row ! j) d) \<inter> (!) ids ` set js = {}"
      using Cons.prems by (auto simp: dict_set_fresh [OF fresh])
    with Cons.IH [of "dict_set (ids ! j) (row ! j) d"] Cons.prems False show ?thesis
      by (simp add: dict_set_fresh [OF fresh])
  qed
qed

lemma decode_row_all:
  assumes "distinct ids" "length row = length ids"
  shows "decode_row ids row [0..<length row] [] =
           Inr [(ids ! j, row ! j). j \<leftarrow> [0..<length ids], row ! j \<noteq> 0]"
proof -
  have "map ((!) ids) [0..<length ids] = ids" by (rule map_nth)
  with assms have "distinct (map ((!) ids) [0..<length row])" by simp
  then show ?thesis
    using assms decode_row_distinct [of ids "[0..<length row]" "[]" row] by simp
qed

lemma decode_rows_distinct:
  assumes "distinct ids" "list_all (\<lambda>row. length row = length ids) z"
  shows "decode_rows ids z i =
     Inr (map (\<lambda>a. (i + a, [(ids ! j, z ! a ! j). j \<leftarrow> [0..<length ids], z ! a ! j \<noteq> 0]))
            [0..<length z])"
  using assms(2)
proof (induction z arbitrary: i)
  case Nil
  then show ?case by simp
next
  case (Cons row z)
  then have len: "length row = length ids" and rest: "list_all (\<lambda>row. length row = length ids) z"
    by simp_all
  have shift: "[0..<length (row # z)] = 0 # map Suc [0..<length z]"
    by (simp add: upt_conv_Cons map_Suc_upt del: upt_Suc)
  show ?case
    unfolding shift
    by (simp add: decode_row_all [OF assms(1) len] Cons.IH [OF rest] comp_def del: upt_Suc cong: if_cong)
qed

text \<open>
  Claim C7, amended. For an \<open>m \<times> m\<close> integer matrix and \<open>m\<close> pairwise distinct instrument
  identifiers, \<open>decode\<close> returns one combination per row, under the row's number: the pairs
  of identifier and coefficient of the row's nonzero entries, in column order.
\<close>

theorem decode_distinct_ids:
  assumes "distinct ids" "length ids = m" "length z = m"
    and "list_all (\<lambda>row. length row = m) z"
  shows "decode z ids =
     Inr (map (\<lambda>i. (i, [(ids ! j, z ! i ! j). j \<leftarrow> [0..<m], z ! i ! j \<noteq> 0])) [0..<m])"
  using assms decode_rows_distinct [of ids z 0] by (simp add: decode_def)

theorem decode_distinct_ids_witness:
  "distinct [''A'', ''B'', ''C''] \<and>
   decode [[1, 2, 3], [0, 1, - 1], [0, 0, 0]] [''A'', ''B'', ''C''] =
     Inr [(0, [(''A'', 1), (''B'', 2), (''C'', 3)]), (1, [(''B'', 1), (''C'', - 1)]), (2, [])]"
  using decode_distinct_ids [of "[''A'', ''B'', ''C'']" 3 "[[1, 2, 3], [0, 1, - 1], [0, 0, 0]]"]
  by (simp add: upt_3)

text \<open>
  Claim C7 as stated, for every sequence of identifiers, fails where a label occurs twice: a
  dictionary holds one value per key, so the nonzero coefficient 1 of column 0 is not in
  the combination of row 0.
\<close>

theorem decode_duplicate_ids_counterexample:
  "decode [[1, 2], [0, 1]] [''A'', ''A''] = Inr [(0, [(''A'', 2)]), (1, [(''A'', 1)])]"
  by (simp add: decode_def upt_3)

section \<open>Failure of the embedding\<close>

text \<open>
  Claim C8, amended. For a feature matrix with fewer rows than columns, \<open>embed\<close> fails: the
  padding has a negative width, which \<open>randint\<close> refuses with \<open>ValueError\<close> (the
  specification's \<open>DimensionError\<close>). Rows of zeros are not looked for.
\<close>

theorem embed_wide_fails:
  assumes "shape rm = (m, d)" "m < d"
  shows "fst (embed gen scale pad_seed rm g) = Inl ValueError"
  using assms
  by (simp add: embed_def np_random_seed_def np_random_randint_0_2_def Let_def)

theorem embed_wide_fails_witness:
  "shape wide_matrix = (1, 2) \<and> (1::nat) < 2 \<and>
   fst (embed sample_gen (10 ^ 6) 42 wide_matrix (RandomState 0 0)) = Inl ValueError"
proof -
  have sh: "shape wide_matrix = (1, 2)" by (simp add: wide_matrix_def shape_def)
  show ?thesis
    using sh embed_wide_fails [OF sh, of sample_gen "10 ^ 6" 42 "RandomState 0 0"] by simp
qed

lemma zero_rows_D_wf: "wf_risk_matrix zero_rows_D" "shape zero_rows_D = (3, 2)"
  by (simp_all add: zero_rows_D_def wf_risk_matrix_def shape_def)

lemma scaled_entry_million: "scaled_entry 1000000 0 = 0" "scaled_entry 1000000 1 = 1000000"
  by code_simp+

text \<open>
  Claim C8 as stated fails on its second half: a scaled matrix with two rows of zeros is
  embedded, not refused.
\<close>

theorem embed_zero_rows_counterexample:
  "fst (embed sample_gen (10 ^ 6) 42 zero_rows_D (RandomState 0 0)) =
     Inr [[0, 0, 0], [0, 0, 1], [1000000, 1000000, 0]]"
proof -
  have "embed sample_gen (10 ^ 6) 42 zero_rows_D (RandomState 0 0) =
    (Inr (map (\<lambda>i. map (scaled_entry (10 ^ 6)) (values_arr zero_rows_D ! i)
                   @ map (\<lambda>c. of_bool (sample_gen 42 (i * (3 - 2) + c))) [0..<3 - 2]) [0..<3]),
     RandomState 42 (3 * (3 - 2)))"
    by (rule embed_value [OF zero_rows_D_wf]) simp_all
  moreover have "values_arr zero_rows_D = [[0, 0], [0, 0], [1, 1]]"
    by (simp add: zero_rows_D_def)
  ultimately show ?thesis
    by (simp add: upt_3 scaled_entry_million sample_gen_def)
qed

section \<open>Determinism and the global generator\<close>

lemma find_stock_combinations_LLL_seed:
  "np_random_seed 42 g = (Inr (), RandomState 42 0)"
  by (simp add: np_random_seed_def)

text \<open>
  Claim C6, amended. The result of \<open>find_stock_combinations_LLL\<close>, and the state in which it
  leaves the global generator, are functions of the risk matrix alone (for a given library):
  they do not depend on the state of the global generator at the call, because the function
  seeds it anew.
\<close>

theorem find_stock_combinations_LLL_deterministic:
  "find_stock_combinations_LLL gen lll rm g1 = find_stock_combinations_LLL gen lll rm g2"
  by (simp add: find_stock_combinations_LLL_def embed_def find_stock_combinations_LLL_seed)

text \<open>
  Claim C6 as stated, that the call writes no global mutable state, fails: the call leaves
  the global generator seeded with 42 and advanced by the three padding draws.
\<close>

theorem find_stock_combinations_LLL_writes_global_counterexample:
  "snd (find_stock_combinations_LLL sample_gen identity_lll scenario_D (RandomState 0 0))
     = RandomState 42 3 \<and> RandomState 42 3 \<noteq> RandomState 0 0"
proof -
  have "embed sample_gen (10 ^ 6) 42 scenario_D (RandomState 0 0) =
    (Inr (map (\<lambda>i. map (scaled_entry (10 ^ 6)) (values_arr scenario_D ! i)
                   @ map (\<lambda>c. of_bool (sample_gen 42 (i * (3 - 2) + c))) [0..<3 - 2]) [0..<3]),
     RandomState 42 (3 * (3 - 2)))"
    by (rule embed_value [OF scenario_D_wf]) simp_all
  then show ?thesis
    by (simp add: find_stock_combinations_LLL_def identity_lll_def split: sum.split)
qed

section \<open>The determinant under row operations\<close>

lemma length_del: "j < length xs \<Longrightarrow> length (del j xs) = length xs - 1"
  by (simp add: del_def)

lemma del_map2: "length u = length v \<Longrightarrow> del j (map2 f u v) = map2 f (del j u) (del j v)"
  by (simp add: del_def take_zip drop_zip take_map drop_map zip_append)

lemma del_map: "del j (map f u) = map f (del j u)"
  by (simp add: del_def take_map drop_map)

lemma map_del_update: "map (del j) (m[k := w]) = (map (del j) m)[k := del j w]"
  by (simp add: map_update)

lemma det_Cons: "det (r # rs) = (\<Sum>j<length r. (- 1) ^ j * r ! j * det (map (del j) rs))"
  by (simp add: interv_sum_list_conv_sum_set_nat atLeast0LessThan)

declare det.simps(2) [simp del]

text \<open>Linearity of the determinant in one row.\<close>

lemma det_row_linear:
  assumes "k < length m" "length u = length v"
  shows "det (m[k := map2 (\<lambda>a b. a + c * b) u v]) = det (m[k := u]) + c * det (m[k := v])"
  using assms
proof (induction "length m" arbitrary: m k u v)
  case 0
  then show ?case by simp
next
  case (Suc n)
  then obtain r rs where m: "m = r # rs" and n: "n = length rs"
    by (cases m) auto
  show ?case
  proof (cases k)
    case 0
    have "det (map2 (\<lambda>a b. a + c * b) u v # rs)
        = (\<Sum>j<length u. (- 1) ^ j * (u ! j + c * v ! j) * det (map (del j) rs))"
      using Suc.prems(2) by (simp add: det_Cons)
    also have "\<dots> = (\<Sum>j<length u. (- 1) ^ j * u ! j * det (map (del j) rs))
                  + c * (\<Sum>j<length u. (- 1) ^ j * v ! j * det (map (del j) rs))"
      by (simp add: sum.distrib sum_distrib_left algebra_simps)
    finally show ?thesis
      using 0 m Suc.prems(2) by (simp add: det_Cons)
  next
    case (Suc k')
    with Suc.prems m have k': "k' < length rs" by simp
    have len: "length (del j u) = length (del j v)" for j
      using Suc.prems(2) by (simp add: del_def)
    have step: "det (map (del j) (rs[k' := map2 (\<lambda>a b. a + c * b) u v]))
        = det (map (del j) (rs[k' := u])) + c * det (map (del j) (rs[k' := v]))" for j
      using Suc.hyps(1) [of "map (del j) rs" k' "del j u" "del j v"] k' n len Suc.prems(2)
      by (simp add: map_del_update del_map2)
    show ?thesis
      unfolding Suc m list_update_code det_Cons step
      by (simp add: sum.distrib sum_distrib_left algebra_simps)
  qed
qed

lemma del_Nil [simp]: "del j [] = []"
  by (simp add: del_def)

lemma del_0 [simp]: "del 0 (x # xs) = xs"
  by (simp add: del_def)

lemma del_Suc [simp]: "del (Suc j) (x # xs) = x # del j xs"
  by (simp add: del_def)

lemma del_del: "j \<le> l \<Longrightarrow> del l (del j xs) = del j (del (Suc l) xs)"
proof (induction xs arbitrary: j l)
  case Nil
  then show ?case by simp
next
  case (Cons x xs)
  show ?case
  proof (cases j)
    case 0
    then show ?thesis by (cases l) simp_all
  next
    case (Suc j')
    with Cons.prems obtain l' where "l = Suc l'" "j' \<le> l'" by (cases l) auto
    with Suc Cons.IH show ?thesis by simp
  qed
qed

lemma nth_del_less: "l < j \<Longrightarrow> j < length xs \<Longrightarrow> del j xs ! l = xs ! l"
  by (simp add: del_def nth_append)

lemma nth_del_ge: "j \<le> l \<Longrightarrow> Suc l < length xs \<Longrightarrow> del j xs ! l = xs ! Suc l"
  by (auto simp add: del_def nth_append min_def)

lemma del_del_comp: "j \<le> l \<Longrightarrow> del l \<circ> del j = del j \<circ> del (Suc l)"
  by (rule ext) (simp add: del_del)

text \<open>Two equal rows at the top: the double expansion cancels in pairs.\<close>

lemma det_top_rows_equal: "det (r # r # rs) = 0"
proof -
  define n where "n = length r"
  define f where "f j l = (- 1) ^ j * r ! j * ((- 1) ^ l * del j r ! l
      * det (map (del l) (map (del j) rs)))" for j l
  define A where "A = {(j, l). l < j \<and> j < n}"
  define B where "B = {(j, l). j \<le> l \<and> l < n - 1}"
  have "det (r # r # rs) = (\<Sum>j<n. (- 1) ^ j * r ! j * det (del j r # map (del j) rs))"
    by (simp add: det_Cons n_def)
  also have "\<dots> = (\<Sum>j<n. \<Sum>l<n - 1. f j l)"
    by (rule sum.cong) (simp_all add: det_Cons length_del n_def f_def sum_distrib_left)
  also have "\<dots> = (\<Sum>(j, l)\<in>{..<n} \<times> {..<n - 1}. f j l)"
    by (simp add: sum.cartesian_product)
  also have "{..<n} \<times> {..<n - 1} = A \<union> B"
    by (auto simp: A_def B_def)
  also have "(\<Sum>(j, l)\<in>A \<union> B. f j l) = (\<Sum>(j, l)\<in>A. f j l) + (\<Sum>(j, l)\<in>B. f j l)"
  proof (rule sum.union_disjoint)
    have "A \<subseteq> {..<n} \<times> {..<n}" "B \<subseteq> {..<n} \<times> {..<n}" by (auto simp: A_def B_def)
    then show "finite A" "finite B" by (auto intro: finite_subset)
    show "A \<inter> B = {}" by (auto simp: A_def B_def)
  qed
  also have "(\<Sum>(j, l)\<in>B. f j l) = (\<Sum>(j, l)\<in>A. - f j l)"
  proof (rule sum.reindex_bij_witness [where i = "\<lambda>(j, l). (l, j - 1)" and j = "\<lambda>(j, l). (Suc l, j)"])
    fix a assume "a \<in> A"
    then show "(case (case a of (j, l) \<Rightarrow> (l, j - 1)) of (j, l) \<Rightarrow> (Suc l, j)) = a"
      "(case a of (j, l) \<Rightarrow> (l, j - 1)) \<in> B"
      by (auto simp: A_def B_def)
  next
    fix b assume b: "b \<in> B"
    then show "(case (case b of (j, l) \<Rightarrow> (Suc l, j)) of (j, l) \<Rightarrow> (l, j - 1)) = b"
      "(case b of (j, l) \<Rightarrow> (Suc l, j)) \<in> A"
      by (auto simp: A_def B_def)
    obtain j l where jl: "b = (j, l)" "j \<le> l" "l < n - 1"
      using b by (auto simp: B_def)
    have "f (Suc l) j = - f j l"
      using jl by (simp add: f_def nth_del_less nth_del_ge n_def del_del_comp)
    then show "(case case b of (j, l) \<Rightarrow> (Suc l, j) of (j, l) \<Rightarrow> - f j l)
        = (case b of (j, l) \<Rightarrow> f j l)"
      by (simp add: jl)
  qed
  finally show ?thesis
    by (simp add: sum_negf case_prod_unfold)
qed

lemma det_adjacent_equal:
  assumes "Suc k < length m" "m ! k = m ! Suc k"
  shows "det m = 0"
  using assms
proof (induction "length m" arbitrary: m k)
  case 0
  then show ?case by simp
next
  case (Suc n)
  then obtain r rs where m: "m = r # rs" and n: "n = length rs"
    by (cases m) auto
  show ?case
  proof (cases k)
    case 0
    with Suc.prems m obtain rs' where "rs = r # rs'"
      by (cases rs) auto
    with m show ?thesis by (simp add: det_top_rows_equal)
  next
    case (Suc k')
    with Suc.prems m have k': "Suc k' < length rs" and eq: "rs ! k' = rs ! Suc k'"
      by simp_all
    have "det (map (del j) rs) = 0" for j
      using Suc.hyps(1) [of "map (del j) rs" k'] n k' eq by simp
    then show ?thesis by (simp add: m det_Cons)
  qed
qed

lemma det_swap_adjacent:
  assumes k: "Suc k < length m" and len: "length (m ! k) = length (m ! Suc k)"
  shows "det (row_swap k m) = - det m"
proof -
  define u where "u = m ! k"
  define v where "v = m ! Suc k"
  define w where "w = map2 (\<lambda>a b. a + 1 * b) u v"
  have luv: "length u = length v" using len by (simp add: u_def v_def)
  have k0: "k < length m" using k by simp
  have "det (m[k := w, Suc k := w]) = 0"
    by (rule det_adjacent_equal [of k]) (use k in simp_all)
  moreover have "det (m[k := w, Suc k := w]) = det (m[k := u, Suc k := w]) + det (m[k := v, Suc k := w])"
    using det_row_linear [of k "m[Suc k := w]" u v 1] k0 luv
    by (simp add: w_def list_update_swap [of k "Suc k"])
  moreover have "det (m[k := u, Suc k := w]) = det (m[k := u, Suc k := u]) + det (m[k := u, Suc k := v])"
    using det_row_linear [of "Suc k" "m[k := u]" u v 1] k luv by (simp add: w_def)
  moreover have "det (m[k := v, Suc k := w]) = det (m[k := v, Suc k := u]) + det (m[k := v, Suc k := v])"
    using det_row_linear [of "Suc k" "m[k := v]" u v 1] k luv by (simp add: w_def)
  moreover have "det (m[k := u, Suc k := u]) = 0" "det (m[k := v, Suc k := v]) = 0"
    by (rule det_adjacent_equal [of k]; use k in simp)+
  moreover have "m[k := u, Suc k := v] = m"
    by (simp add: u_def v_def)
  moreover have "m[k := v, Suc k := u] = row_swap k m"
    by (simp add: u_def v_def row_swap_def)
  ultimately show ?thesis by simp
qed

lemma rectangular_nth: "rectangular n m \<Longrightarrow> i < length m \<Longrightarrow> length (m ! i) = n"
  by (simp add: rectangular_def list_all_length)

lemma rectangular_update:
  "rectangular n m \<Longrightarrow> length r = n \<Longrightarrow> rectangular n (m[i := r])"
  by (cases "i < length m") (auto simp: rectangular_def list_all_length nth_list_update)

lemma rectangular_row_swap: "rectangular n m \<Longrightarrow> Suc k < length m \<Longrightarrow> rectangular n (row_swap k m)"
  by (simp add: row_swap_def rectangular_update rectangular_nth)

lemma det_equal_rows_less:
  assumes "rectangular n m" "i < k" "k < length m" "m ! i = m ! k"
  shows "det m = 0"
  using assms
proof (induction "k - i" arbitrary: m k)
  case 0
  then show ?case by simp
next
  case (Suc d)
  show ?case
  proof (cases "k = Suc i")
    case True
    with Suc.prems show ?thesis by (auto intro: det_adjacent_equal [of i])
  next
    case False
    with Suc.prems Suc.hyps(2) obtain k' where k': "k = Suc k'" "i < k'" "d = k' - i"
      by (cases k) auto
    have sw: "det (row_swap k' m) = - det m"
      using Suc.prems k' by (intro det_swap_adjacent) (simp_all add: rectangular_nth)
    have "det (row_swap k' m) = 0"
    proof (rule Suc.hyps(1) [of k'])
      show "d = k' - i" by fact
      show "rectangular n (row_swap k' m)"
        using Suc.prems k' by (simp add: rectangular_row_swap)
      show "i < k'" by fact
      show "k' < length (row_swap k' m)" using Suc.prems k' by (simp add: row_swap_def)
      show "row_swap k' m ! i = row_swap k' m ! k'"
        using Suc.prems k' by (simp add: row_swap_def)
    qed
    with sw show ?thesis by simp
  qed
qed

lemma det_equal_rows:
  assumes "rectangular n m" "i \<noteq> k" "i < length m" "k < length m" "m ! i = m ! k"
  shows "det m = 0"
proof (cases "i < k")
  case True
  with assms show ?thesis by (auto intro: det_equal_rows_less)
next
  case False
  with assms have "k < i" by simp
  with assms show ?thesis by (auto intro: det_equal_rows_less [of n m k i])
qed

lemma vsub_smult: "vsub u (smult q v) = map2 (\<lambda>a b. a + (- q) * b) u v"
  by (simp add: vsub_def smult_def zip_map2 case_prod_unfold)

lemma det_row_combine:
  assumes "rectangular n m" "i \<noteq> j" "i < length m" "j < length m"
  shows "det (row_combine i j q m) = det m"
proof -
  have "det (row_combine i j q m) = det (m[i := m ! i]) + (- q) * det (m[i := m ! j])"
    unfolding row_combine_def vsub_smult
    using assms by (intro det_row_linear) (simp_all add: rectangular_nth)
  moreover have "det (m[i := m ! j]) = 0"
    using assms by (intro det_equal_rows [of n _ i j]) (simp_all add: rectangular_update rectangular_nth)
  ultimately show ?thesis by simp
qed

lemma det_row_swap:
  assumes "rectangular n m" "Suc k < length m"
  shows "det (row_swap k m) = - det m"
  using assms by (intro det_swap_adjacent) (simp_all add: rectangular_nth)

section \<open>The transform and the product with the original basis\<close>

lemma identity_Suc:
  "identity (Suc n) = (1 # replicate n 0) # map ((#) 0) (identity n)"
proof -
  have "[0..<Suc n] = 0 # map Suc [0..<n]"
    by (simp add: upt_conv_Cons map_Suc_upt del: upt_Suc)
  then show ?thesis
    by (simp add: identity_def comp_def map_replicate_const del: upt_Suc)
qed

lemma del_0_Cons_comp: "del 0 \<circ> (#) x = id"
  by (rule ext) simp

lemma det_identity: "det (identity n) = 1"
proof (induction n)
  case 0
  then show ?case by (simp add: identity_def)
next
  case (Suc n)
  have "det (identity (Suc n)) =
      (\<Sum>j<Suc n. (- 1) ^ j * (1 # replicate n 0) ! j * det (map (del j) (map ((#) 0) (identity n))))"
    by (simp add: identity_Suc det_Cons)
  also have "\<dots> = (\<Sum>j<Suc n. if j = 0 then 1 else 0)"
    by (rule sum.cong) (auto simp: del_0_Cons_comp Suc.IH nth_Cons')
  finally show ?case by simp
qed

lemma square_mat_identity: "square_mat n (identity n)"
  by (simp add: square_mat_def rectangular_def identity_def list_all_length)

lemma dot_sum:
  "length u = length v \<Longrightarrow> dot u v = (\<Sum>t<length u. u ! t * v ! t)"
  by (simp add: dot_def sum_list_sum_nth atLeast0LessThan)

lemma dot_combine:
  assumes "length u = n" "length v = n" "length c = n"
  shows "dot (vsub u (smult q v)) c = dot u c - q * dot v c"
proof -
  have "length (vsub u (smult q v)) = n"
    using assms by (simp add: vsub_def smult_def)
  then have "dot (vsub u (smult q v)) c = (\<Sum>t<n. (u ! t - q * v ! t) * c ! t)"
    using assms by (simp add: dot_sum vsub_def smult_def)
  also have "\<dots> = (\<Sum>t<n. u ! t * c ! t) - q * (\<Sum>t<n. v ! t * c ! t)"
    by (simp add: sum_subtractf sum_distrib_left algebra_simps)
  finally show ?thesis
    using assms by (simp add: dot_sum)
qed

lemma mat_mul_update:
  "mat_mul (a[i := r]) b = (mat_mul a b)[i := map (\<lambda>j. dot r (column j b)) [0..<length b]]"
  by (simp add: mat_mul_def map_update)

lemma mat_mul_nth:
  "i < length a \<Longrightarrow> mat_mul a b ! i = map (\<lambda>j. dot (a ! i) (column j b)) [0..<length b]"
  by (simp add: mat_mul_def)

lemma length_column [simp]: "length (column j b) = length b"
  by (simp add: column_def)

lemma mat_mul_row_combine:
  assumes "rectangular (length b) a" "i < length a" "j < length a"
  shows "mat_mul (row_combine i j q a) b = row_combine i j q (mat_mul a b)"
proof -
  let ?n = "length b"
  have len: "length (a ! i) = ?n" "length (a ! j) = ?n"
    using assms by (simp_all add: rectangular_nth)
  have "map (\<lambda>c. dot (vsub (a ! i) (smult q (a ! j))) (column c b)) [0..<?n]
      = vsub (mat_mul a b ! i) (smult q (mat_mul a b ! j))"
  proof (rule nth_equalityI)
    show "length (map (\<lambda>c. dot (vsub (a ! i) (smult q (a ! j))) (column c b)) [0..<?n])
        = length (vsub (mat_mul a b ! i) (smult q (mat_mul a b ! j)))"
      using assms by (simp add: mat_mul_nth vsub_def smult_def)
  next
    fix c assume "c < length (map (\<lambda>c. dot (vsub (a ! i) (smult q (a ! j))) (column c b)) [0..<?n])"
    then have c: "c < ?n" by simp
    have "dot (vsub (a ! i) (smult q (a ! j))) (column c b)
        = dot (a ! i) (column c b) - q * dot (a ! j) (column c b)"
      by (rule dot_combine [of _ ?n]) (simp_all add: len)
    then show "map (\<lambda>c. dot (vsub (a ! i) (smult q (a ! j))) (column c b)) [0..<?n] ! c
        = vsub (mat_mul a b ! i) (smult q (mat_mul a b ! j)) ! c"
      using c assms by (simp add: mat_mul_nth vsub_def smult_def)
  qed
  then show ?thesis
    by (simp add: row_combine_def mat_mul_update)
qed

lemma mat_mul_row_swap:
  assumes "Suc k < length a"
  shows "mat_mul (row_swap k a) b = row_swap k (mat_mul a b)"
  using assms by (simp add: row_swap_def mat_mul_update mat_mul_nth)

lemma dot_unit:
  assumes "i < n" "length c = n"
  shows "dot (map (\<lambda>j. if i = j then 1 else 0) [0..<n]) c = c ! i"
proof -
  have "dot (map (\<lambda>j. if i = j then 1 else 0) [0..<n]) c
      = (\<Sum>t<n. (if i = t then 1 else 0) * c ! t)"
    using assms by (simp add: dot_sum)
  also have "\<dots> = (\<Sum>t<n. if t = i then c ! t else 0)"
    by (rule sum.cong) auto
  also have "\<dots> = c ! i"
    using assms by simp
  finally show ?thesis .
qed

lemma mat_mul_identity:
  assumes "square_mat n b"
  shows "mat_mul (identity n) b = b"
proof (rule nth_equalityI)
  show "length (mat_mul (identity n) b) = length b"
    using assms by (simp add: mat_mul_def identity_def square_mat_def)
next
  fix i assume "i < length (mat_mul (identity n) b)"
  then have i: "i < n" by (simp add: mat_mul_def identity_def)
  from assms have lb: "length b = n" and row: "length (b ! i) = n"
    using i by (simp_all add: square_mat_def rectangular_def list_all_length)
  have "map (\<lambda>j. dot (identity n ! i) (column j b)) [0..<n] = b ! i"
  proof (rule nth_equalityI)
    show "length (map (\<lambda>j. dot (identity n ! i) (column j b)) [0..<n]) = length (b ! i)"
      using row by simp
  next
    fix j assume "j < length (map (\<lambda>j. dot (identity n ! i) (column j b)) [0..<n])"
    then have j: "j < n" by simp
    have "dot (identity n ! i) (column j b) = column j b ! i"
      using i lb by (simp add: identity_def dot_unit)
    then show "map (\<lambda>j. dot (identity n ! i) (column j b)) [0..<n] ! j = b ! i ! j"
      using i j lb by (simp add: column_def)
  qed
  then show "mat_mul (identity n) b ! i = b ! i"
    using i lb by (simp add: mat_mul_nth identity_def)
qed

lemma square_mat_row_combine:
  "square_mat n m \<Longrightarrow> i < n \<Longrightarrow> j < n \<Longrightarrow> square_mat n (row_combine i j q m)"
proof -
  assume sq: "square_mat n m" and ij: "i < n" "j < n"
  then have "length (m ! i) = n" "length (m ! j) = n"
    by (auto simp: square_mat_def rectangular_nth)
  then have "length (vsub (m ! i) (smult q (m ! j))) = n"
    by (simp add: vsub_def smult_def)
  with sq show ?thesis
    by (simp add: square_mat_def row_combine_def rectangular_update)
qed

lemma square_mat_row_swap:
  "square_mat n m \<Longrightarrow> Suc k < n \<Longrightarrow> square_mat n (row_swap k m)"
  by (simp add: square_mat_def rectangular_row_swap) (simp add: row_swap_def)

lemma transform_inv_initial:
  "square_mat n b0 \<Longrightarrow> transform_inv b0 (initial_state b0)"
proof -
  assume sq: "square_mat n b0"
  then have n: "length b0 = n" by (simp add: square_mat_def)
  with sq show ?thesis
    by (simp add: transform_inv_def initial_state_def square_mat_identity mat_mul_identity
        det_identity)
qed

lemma control_ok_initial: "control_ok (initial_state b0)"
  by (simp add: control_ok_def initial_state_def)

lemma transform_inv_row_combine:
  assumes "transform_inv b0 s" "i < length b0" "j < length b0" "i \<noteq> j"
  shows "transform_inv b0 (s\<lparr>Basis := row_combine i j q (Basis s),
           Transform := row_combine i j q (Transform s), phase := p\<rparr>)"
proof -
  let ?n = "length b0"
  from assms(1) have sq: "square_mat ?n (Basis s)" "square_mat ?n (Transform s)"
    and mm: "mat_mul (Transform s) b0 = Basis s" and dt: "\<bar>det (Transform s)\<bar> = 1"
    by (simp_all add: transform_inv_def)
  from sq(2) have rect: "rectangular ?n (Transform s)" and len: "length (Transform s) = ?n"
    by (simp_all add: square_mat_def)
  have "mat_mul (row_combine i j q (Transform s)) b0 = row_combine i j q (Basis s)"
    using mat_mul_row_combine [OF rect, of i j q] assms(2,3) len mm by simp
  moreover have "det (row_combine i j q (Transform s)) = det (Transform s)"
    using det_row_combine [OF rect assms(4), of q] assms(2,3) len by simp
  ultimately show ?thesis
    using sq dt assms(2,3)
    by (simp add: transform_inv_def square_mat_row_combine)
qed

lemma transform_inv_row_swap:
  assumes "transform_inv b0 s" "Suc k < length b0"
  shows "transform_inv b0 (s\<lparr>Basis := row_swap k (Basis s),
           Transform := row_swap k (Transform s), cursor := c, phase := p\<rparr>)"
proof -
  let ?n = "length b0"
  from assms(1) have sq: "square_mat ?n (Basis s)" "square_mat ?n (Transform s)"
    and mm: "mat_mul (Transform s) b0 = Basis s" and dt: "\<bar>det (Transform s)\<bar> = 1"
    by (simp_all add: transform_inv_def)
  from sq(2) have rect: "rectangular ?n (Transform s)" and len: "length (Transform s) = ?n"
    by (simp_all add: square_mat_def)
  have "mat_mul (row_swap k (Transform s)) b0 = row_swap k (Basis s)"
    using mat_mul_row_swap [of k "Transform s" b0] assms(2) len mm by simp
  moreover have "det (row_swap k (Transform s)) = - det (Transform s)"
    using det_row_swap [OF rect, of k] assms(2) len by simp
  ultimately show ?thesis
    using sq dt assms(2)
    by (simp add: transform_inv_def square_mat_row_swap)
qed

lemma lll_step_inv:
  assumes "transform_inv b0 s" "control_ok s" "cursor s < length b0"
  shows "transform_inv b0 (lll_step \<delta> s) \<and> control_ok (lll_step \<delta> s)"
proof (cases "phase s")
  case (SizeReduce c)
  show ?thesis
  proof (cases c)
    case 0
    with SizeReduce assms show ?thesis
      by (auto simp: lll_step_def Let_def control_ok_def transform_inv_def)
  next
    case (Suc j)
    with SizeReduce assms(2) have j: "j < cursor s" by (simp add: control_ok_def)
    have ti: "transform_inv b0 (s\<lparr>Basis := row_combine (cursor s) j q (Basis s),
           Transform := row_combine (cursor s) j q (Transform s), phase := SizeReduce j\<rparr>)" for q
      using assms j by (intro transform_inv_row_combine) simp_all
    have "transform_inv b0 (s\<lparr>phase := SizeReduce j\<rparr>)"
      using assms(1) by (simp add: transform_inv_def)
    with ti SizeReduce Suc j assms(2) show ?thesis
      by (simp add: lll_step_def Let_def control_ok_def)
  qed
next
  case Lovasz
  have k: "Suc (cursor s - 1) < length b0" "1 \<le> cursor s"
    using assms by (simp_all add: control_ok_def)
  have ti: "transform_inv b0 (s\<lparr>Basis := row_swap (cursor s - 1) (Basis s),
           Transform := row_swap (cursor s - 1) (Transform s),
           cursor := c, phase := p\<rparr>)" for c p
    using assms(1) k(1) by (rule transform_inv_row_swap)
  have "transform_inv b0 (s\<lparr>cursor := c, phase := p\<rparr>)" for c p
    using assms(1) by (simp add: transform_inv_def)
  with ti Lovasz k show ?thesis
    by (simp add: lll_step_def Let_def control_ok_def)
qed

lemma lll_trace_inv:
  assumes "transform_inv b0 s" "control_ok s" "t \<in> set (lll_trace budget \<delta> s)"
  shows "transform_inv b0 t"
  using assms
proof (induction budget arbitrary: s)
  case 0
  then show ?case by (auto split: option.splits if_splits)
next
  case (Suc budget)
  show ?case
  proof (cases "t = s")
    case True
    with Suc.prems show ?thesis by simp
  next
    case False
    with Suc.prems(3) have run: "zero_row (Basis s) = None" "cursor s < length (Basis s)"
      and t: "t \<in> set (lll_trace budget \<delta> (lll_step \<delta> s))"
      by (auto split: option.splits if_splits)
    from Suc.prems(1) have "length (Basis s) = length b0"
      by (simp add: transform_inv_def square_mat_def)
    with run have "cursor s < length b0" by simp
    from lll_step_inv [OF Suc.prems(1,2) this, of \<delta>] Suc.IH t show ?thesis by blast
  qed
qed

lemma lll_run_in_trace:
  "lll_run budget \<delta> s = Inr (b, t) \<Longrightarrow>
     \<exists>s'\<in>set (lll_trace budget \<delta> s). Basis s' = b \<and> Transform s' = t"
proof (induction budget arbitrary: s)
  case 0
  then show ?case by (auto split: option.splits if_splits)
next
  case (Suc budget)
  show ?case
  proof (cases "zero_row (Basis s) = None \<and> cursor s < length (Basis s)")
    case True
    with Suc.prems have "lll_run budget \<delta> (lll_step \<delta> s) = Inr (b, t)" by simp
    from Suc.IH [OF this] True show ?thesis by auto
  next
    case False
    with Suc.prems show ?thesis by (auto split: option.splits if_splits)
  qed
qed

lemma reduce_inv:
  assumes "square_mat n b0" "reduce budget b0 \<delta> = Inr (b, t)"
  shows "mat_mul t b0 = b \<and> \<bar>det t\<bar> = 1"
proof -
  from assms(2) have "lll_run budget \<delta> (initial_state b0) = Inr (b, t)"
    by (simp add: reduce_def split: if_splits)
  then obtain s' where "s' \<in> set (lll_trace budget \<delta> (initial_state b0))"
    "Basis s' = b" "Transform s' = t"
    using lll_run_in_trace by blast
  with lll_trace_inv [OF transform_inv_initial [OF assms(1)] control_ok_initial] show ?thesis
    by (auto simp: transform_inv_def)
qed

lemma reduce_scenario_C:
  "reduce 100 scenario_C (3 / 4) = Inr ([[1, 29], [199, - 21]], [[0, 1], [1, - 2]])"
  by code_simp

lemma reduce_basis_3:
  "reduce 1000 basis_3 (3 / 4) =
     Inr ([[0, 1, 0], [1, 0, 1], [- 1, 0, 2]], [[- 4, - 1, 1], [5, 1, - 1], [0, 1, 0]])"
  by code_simp

text \<open>
  Claim C2. Whenever \<open>reduce\<close> returns a basis and a transform for a square integer
  basis, the product of the transform with the input basis is the returned basis, as
  integer matrices.
\<close>

theorem reduce_reconstruction:
  assumes "square_mat n b0" "reduce budget b0 \<delta> = Inr (b, t)"
  shows "mat_mul t b0 = b"
  using reduce_inv [OF assms] by simp

theorem reduce_reconstruction_witness:
  "square_mat 2 scenario_C \<and>
   reduce 100 scenario_C (3 / 4) = Inr ([[1, 29], [199, - 21]], [[0, 1], [1, - 2]]) \<and>
   mat_mul [[0, 1], [1, - 2]] scenario_C = [[1, 29], [199, - 21]]"
proof -
  have sq: "square_mat 2 scenario_C"
    by (simp add: square_mat_def rectangular_def scenario_C_def)
  from reduce_reconstruction [OF sq reduce_scenario_C] sq reduce_scenario_C
  show ?thesis by simp
qed

text \<open>
  Claim C3. For a square input basis, every state of a reduction run, the first and the
  last included, satisfies \<open>Transform \<cdot> OriginalBasis = Basis\<close> and
  \<open>\<bar>det Transform\<bar> = 1\<close>; so does the pair a run returns. Each elementary operation
  keeps both: a row combination or a swap of the transform is the same operation on the
  product, a row combination keeps the determinant and a swap negates it.
\<close>

theorem transform_invariant:
  assumes "square_mat n b0"
  shows "(\<forall>s\<in>set (lll_trace budget \<delta> (initial_state b0)).
            mat_mul (Transform s) b0 = Basis s \<and> \<bar>det (Transform s)\<bar> = 1) \<and>
         (\<forall>b t. reduce budget b0 \<delta> = Inr (b, t) \<longrightarrow> mat_mul t b0 = b \<and> \<bar>det t\<bar> = 1) \<and>
         (\<forall>t i j q. square_mat n t \<and> i < n \<and> j < n \<and> i \<noteq> j \<longrightarrow>
            mat_mul (row_combine i j q t) b0 = row_combine i j q (mat_mul t b0) \<and>
            det (row_combine i j q t) = det t) \<and>
         (\<forall>t k. square_mat n t \<and> Suc k < n \<longrightarrow>
            mat_mul (row_swap k t) b0 = row_swap k (mat_mul t b0) \<and>
            det (row_swap k t) = - det t)"
proof -
  from assms have n: "length b0 = n" by (simp add: square_mat_def)
  have "mat_mul (Transform s) b0 = Basis s \<and> \<bar>det (Transform s)\<bar> = 1"
    if "s \<in> set (lll_trace budget \<delta> (initial_state b0))" for s
    using lll_trace_inv [OF transform_inv_initial [OF assms] control_ok_initial that]
    by (simp add: transform_inv_def)
  moreover have "mat_mul t b0 = b \<and> \<bar>det t\<bar> = 1" if "reduce budget b0 \<delta> = Inr (b, t)" for b t
    using reduce_inv [OF assms that] .
  moreover have "mat_mul (row_combine i j q t) b0 = row_combine i j q (mat_mul t b0) \<and>
      det (row_combine i j q t) = det t"
    if "square_mat n t \<and> i < n \<and> j < n \<and> i \<noteq> j" for t i j q
  proof -
    from that have "rectangular (length b0) t" "length t = n" "i < length t" "j < length t" "i \<noteq> j"
      by (simp_all add: square_mat_def n)
    then show ?thesis
      by (simp add: mat_mul_row_combine det_row_combine [of "length b0"])
  qed
  moreover have "mat_mul (row_swap k t) b0 = row_swap k (mat_mul t b0) \<and>
      det (row_swap k t) = - det t"
    if "square_mat n t \<and> Suc k < n" for t k
  proof -
    from that have "rectangular n t" "Suc k < length t"
      by (simp_all add: square_mat_def)
    then show ?thesis
      by (simp add: mat_mul_row_swap det_row_swap [of n])
  qed
  ultimately show ?thesis by blast
qed

theorem transform_invariant_witness:
  "square_mat 3 basis_3 \<and>
   reduce 1000 basis_3 (3 / 4) =
     Inr ([[0, 1, 0], [1, 0, 1], [- 1, 0, 2]], [[- 4, - 1, 1], [5, 1, - 1], [0, 1, 0]]) \<and>
   mat_mul [[- 4, - 1, 1], [5, 1, - 1], [0, 1, 0]] basis_3 = [[0, 1, 0], [1, 0, 1], [- 1, 0, 2]] \<and>
   \<bar>det [[- 4, - 1, 1], [5, 1, - 1], [0, 1, 0]]\<bar> = 1"
proof -
  have sq: "square_mat 3 basis_3"
    by (simp add: square_mat_def rectangular_def basis_3_def)
  from transform_invariant [OF sq, of 1000 "3 / 4"] reduce_basis_3 sq
  show ?thesis by simp
qed

section \<open>The reduced form\<close>

lemma gso_from_append: "gso_from acc (xs @ ys) = gso_from (gso_from acc xs) ys"
  by (induction xs arbitrary: acc) simp_all

lemma gso_from_prefix: "\<exists>zs. gso_from acc xs = acc @ zs \<and> length zs = length xs"
proof (induction xs arbitrary: acc)
  case Nil
  then show ?case by simp
next
  case (Cons x xs)
  from Cons.IH [of "acc @ [orthogonalize x acc]"] show ?case by auto
qed

lemma length_gso [simp]: "length (gso b) = length b"
  using gso_from_prefix [of "[]" "map (map of_int) b"] by (auto simp: gso_def)

lemma gso_take: "gso (take m b) = take m (gso b)"
proof (cases "m \<le> length b")
  case False
  then show ?thesis by simp
next
  case True
  let ?xs = "map (map rat_of_int) (take m b)" and ?ys = "map (map rat_of_int) (drop m b)"
  obtain zs where zs: "gso_from [] ?xs = zs" "length zs = length ?xs"
    using gso_from_prefix [of "[]" ?xs] by auto
  obtain ws where ws: "gso_from zs ?ys = zs @ ws"
    using gso_from_prefix [of zs ?ys] by auto
  have "gso b = gso_from [] (?xs @ ?ys)"
    by (simp add: gso_def map_append [symmetric] del: map_append)
  also have "\<dots> = zs @ ws"
    by (simp add: gso_from_append zs ws)
  finally have "take m (gso b) = take m (zs @ ws)" by simp
  also have "\<dots> = zs" using zs(2) True by simp
  finally show ?thesis by (simp add: gso_def zs(1) take_map)
qed

lemma mu_at_eq:
  "k < length b \<Longrightarrow> j < k \<Longrightarrow>
     mu_at b k j = dot (map of_int (b ! k)) (gso b ! j) / dot (gso b ! j) (gso b ! j)"
  by (simp add: mu_at_def initialize_def Let_def)

lemma B_at_eq: "k < length b \<Longrightarrow> B_at b k = dot (gso b ! k) (gso b ! k)"
  by (simp add: B_at_def initialize_def Let_def)

lemma mu_at_take:
  "k < m \<Longrightarrow> m \<le> length b \<Longrightarrow> j < k \<Longrightarrow> mu_at (take m b) k j = mu_at b k j"
  by (simp add: mu_at_eq gso_take)

lemma B_at_take: "k < m \<Longrightarrow> m \<le> length b \<Longrightarrow> B_at (take m b) k = B_at b k"
  by (simp add: B_at_eq gso_take)

lemma size_reduced_row_take:
  "k < m \<Longrightarrow> m \<le> length b \<Longrightarrow> size_reduced_row (take m b) k = size_reduced_row b k"
  by (simp add: size_reduced_row_def list_all_iff mu_at_take)

lemma lovasz_take:
  "0 < k \<Longrightarrow> k < m \<Longrightarrow> m \<le> length b \<Longrightarrow> lovasz \<delta> (take m b) k = lovasz \<delta> b k"
  by (simp add: lovasz_def mu_at_take B_at_take)

lemma reduced_upto_take:
  assumes "m \<le> length b"
  shows "reduced_upto \<delta> (take m b) m = reduced_upto \<delta> b m"
proof -
  have "(size_reduced_row (take m b) k \<and> (k = 0 \<or> lovasz \<delta> (take m b) k))
      = (size_reduced_row b k \<and> (k = 0 \<or> lovasz \<delta> b k))" if "k < m" for k
    using that assms by (cases "k = 0") (simp_all add: size_reduced_row_take lovasz_take)
  then show ?thesis
    by (simp add: reduced_upto_def list_all_iff)
qed

lemma reduced_upto_cong:
  assumes "take m b = take m b'" "m \<le> length b" "m \<le> length b'"
  shows "reduced_upto \<delta> b m = reduced_upto \<delta> b' m"
  using reduced_upto_take [OF assms(2), of \<delta>] reduced_upto_take [OF assms(3), of \<delta>] assms(1)
  by simp

lemma reduced_upto_mono: "reduced_upto \<delta> b m \<Longrightarrow> m' \<le> m \<Longrightarrow> reduced_upto \<delta> b m'"
  by (auto simp: reduced_upto_def list_all_iff)

lemma reduced_upto_Suc:
  "reduced_upto \<delta> b (Suc k) \<longleftrightarrow>
     reduced_upto \<delta> b k \<and> size_reduced_row b k \<and> (k = 0 \<or> lovasz \<delta> b k)"
  by (simp add: reduced_upto_def)

lemma reduced_upto_1: "reduced_upto \<delta> b (Suc 0)"
  by (simp add: reduced_upto_def size_reduced_row_def)

lemma length_row_combine [simp]: "length (row_combine i j q m) = length m"
  by (simp add: row_combine_def)

lemma length_row_swap [simp]: "length (row_swap k m) = length m"
  by (simp add: row_swap_def)

lemma take_row_combine: "take i (row_combine i j q m) = take i m"
  by (simp add: row_combine_def)

lemma take_row_swap: "take k (row_swap k m) = take k m"
  by (simp add: row_swap_def)

lemma length_lll_step [simp]: "length (Basis (lll_step \<delta> s)) = length (Basis s)"
  by (simp add: lll_step_def Let_def split: phase.split nat.split)

lemma reduced_inv_initial: "reduced_inv \<delta> (initial_state b)"
proof -
  have "reduced_upto \<delta> b (min 1 (length b))"
    by (rule reduced_upto_mono [OF reduced_upto_1]) simp
  then show ?thesis by (simp add: reduced_inv_def initial_state_def)
qed

lemma lll_step_reduced_inv:
  assumes inv: "reduced_inv \<delta> s" and ok: "control_ok s" and k: "cursor s < length (Basis s)"
  shows "reduced_inv \<delta> (lll_step \<delta> s)"
proof -
  let ?k = "cursor s" and ?b = "Basis s"
  from inv k have upto: "reduced_upto \<delta> ?b ?k"
    by (simp add: reduced_inv_def min_def)
  show ?thesis
  proof (cases "phase s")
    case (SizeReduce c)
    show ?thesis
    proof (cases c)
      case 0
      with SizeReduce upto k show ?thesis
        by (simp add: lll_step_def Let_def reduced_inv_def min_def)
    next
      case (Suc j)
      have "reduced_upto \<delta> (row_combine ?k j q ?b) ?k" for q
        using reduced_upto_cong [of ?k "row_combine ?k j q ?b" ?b \<delta>] k upto
        by (simp add: take_row_combine)
      with SizeReduce Suc upto k show ?thesis
        by (simp add: lll_step_def Let_def reduced_inv_def min_def)
    qed
  next
    case Lovasz
    with inv have row: "size_reduced_row ?b ?k" by (simp add: reduced_inv_def)
    from ok have k1: "1 \<le> ?k" by (simp add: control_ok_def)
    show ?thesis
    proof (cases "lovasz \<delta> ?b ?k")
      case True
      with upto row have "reduced_upto \<delta> ?b (Suc ?k)"
        by (simp add: reduced_upto_Suc)
      with True Lovasz k show ?thesis
        by (simp add: lll_step_def Let_def reduced_inv_def min_def)
    next
      case False
      let ?k' = "max (?k - 1) 1"
      have "reduced_upto \<delta> (row_swap (?k - 1) ?b) ?k'"
      proof (cases "?k = 1")
        case True
        then show ?thesis by (simp add: reduced_upto_1)
      next
        case False
        with k1 have k': "?k' = ?k - 1" by simp
        have "reduced_upto \<delta> ?b (?k - 1)"
          by (rule reduced_upto_mono [OF upto]) simp
        with reduced_upto_cong [of "?k - 1" "row_swap (?k - 1) ?b" ?b \<delta>] k
        show ?thesis unfolding k' by (simp add: take_row_swap)
      qed
      moreover have "?k' \<le> length ?b" using k k1 by simp
      ultimately show ?thesis
        using False Lovasz k
        by (simp add: lll_step_def Let_def reduced_inv_def min_absorb1)
    qed
  qed
qed

lemma control_ok_step:
  "control_ok s \<Longrightarrow> control_ok (lll_step \<delta> s)"
  by (auto simp: control_ok_def lll_step_def Let_def split: phase.splits nat.splits)

lemma lll_run_reduced:
  assumes "reduced_inv \<delta> s" "control_ok s" "lll_run budget \<delta> s = Inr (b, t)"
  shows "lll_reduced \<delta> b"
  using assms
proof (induction budget arbitrary: s)
  case 0
  then show ?case
    by (auto simp: reduced_inv_def lll_reduced_def min_def split: option.splits if_splits)
next
  case (Suc budget)
  show ?case
  proof (cases "zero_row (Basis s) = None \<and> cursor s < length (Basis s)")
    case True
    with Suc.prems have run: "lll_run budget \<delta> (lll_step \<delta> s) = Inr (b, t)" by simp
    from True Suc.prems have "reduced_inv \<delta> (lll_step \<delta> s)"
      by (intro lll_step_reduced_inv) simp_all
    from Suc.IH [OF this control_ok_step [OF Suc.prems(2)] run] show ?thesis .
  next
    case False
    with Suc.prems show ?thesis
      by (auto simp: reduced_inv_def lll_reduced_def min_def split: option.splits if_splits)
  qed
qed

text \<open>
  Claim C1. The basis a successful \<open>reduce\<close> returns is \<open>\<delta>\<close>-LLL-reduced: every
  \<open>\<mu>_{k,j}\<close> with \<open>j < k\<close> is at most 1/2 in absolute value, and every adjacent pair
  \<open>(k - 1, k)\<close> satisfies the Lovasz condition, with \<open>\<mu>\<close> and \<open>B\<close> the Gram-Schmidt data of
  the returned basis.
\<close>

theorem reduce_lll_reduced:
  assumes "reduce budget b0 \<delta> = Inr (b, t)"
  shows "(\<forall>k<length b. \<forall>j<k. \<bar>mu_at b k j\<bar> \<le> 1 / 2) \<and>
         (\<forall>k. 1 \<le> k \<and> k < length b \<longrightarrow>
            (\<delta> - (mu_at b k (k - 1))\<^sup>2) * B_at b (k - 1) \<le> B_at b k)"
proof -
  from assms have "lll_run budget \<delta> (initial_state b0) = Inr (b, t)"
    by (simp add: reduce_def split: if_splits)
  from lll_run_reduced [OF reduced_inv_initial control_ok_initial this]
  have "lll_reduced \<delta> b" .
  then have all: "size_reduced_row b k \<and> (k = 0 \<or> lovasz \<delta> b k)" if "k < length b" for k
    using that by (simp add: lll_reduced_def reduced_upto_def list_all_iff)
  have "\<bar>mu_at b k j\<bar> \<le> 1 / 2" if "k < length b" "j < k" for k j
    using all [OF that(1)] that(2) by (simp add: size_reduced_row_def list_all_iff)
  moreover have "(\<delta> - (mu_at b k (k - 1))\<^sup>2) * B_at b (k - 1) \<le> B_at b k"
    if "1 \<le> k" "k < length b" for k
    using all [OF that(2)] that(1) by (simp add: lovasz_def)
  ultimately show ?thesis by blast
qed

theorem reduce_lll_reduced_witness:
  "reduce 100 scenario_C (3 / 4) = Inr ([[1, 29], [199, - 21]], [[0, 1], [1, - 2]]) \<and>
   \<bar>mu_at [[1, 29], [199, - 21]] 1 0\<bar> \<le> 1 / 2 \<and>
   (3 / 4 - (mu_at [[1, 29], [199, - 21]] 1 (1 - 1))\<^sup>2) * B_at [[1, 29], [199, - 21]] (1 - 1)
     \<le> B_at [[1, 29], [199, - 21]] 1"
proof -
  let ?b = "[[1, 29], [199, - 21]] :: int list list"
  have len: "1 < length ?b" "(0::nat) < 1" "(1::nat) \<le> 1 \<and> 1 < length ?b" by simp_all
  note red = reduce_lll_reduced [OF reduce_scenario_C]
  from red have "\<forall>k<length ?b. \<forall>j<k. \<bar>mu_at ?b k j\<bar> \<le> 1 / 2" by (rule conjunct1)
  with len(1,2) have "\<bar>mu_at ?b 1 0\<bar> \<le> 1 / 2" by blast
  moreover from red have "\<forall>k. 1 \<le> k \<and> k < length ?b \<longrightarrow>
      (3 / 4 - (mu_at ?b k (k - 1))\<^sup>2) * B_at ?b (k - 1) \<le> B_at ?b k" by (rule conjunct2)
  with len(3) have "(3 / 4 - (mu_at ?b 1 (1 - 1))\<^sup>2) * B_at ?b (1 - 1) \<le> B_at ?b 1" by blast
  ultimately show ?thesis using reduce_scenario_C by blast
qed

section \<open>Reduced bases are left alone\<close>

lemma lll_reduced_row:
  "lll_reduced \<delta> b \<Longrightarrow> k < length b \<Longrightarrow> size_reduced_row b k \<and> (k = 0 \<or> lovasz \<delta> b k)"
  by (simp add: lll_reduced_def reduced_upto_def list_all_iff)

lemma lll_reduced_mu:
  "lll_reduced \<delta> b \<Longrightarrow> k < length b \<Longrightarrow> j < k \<Longrightarrow> \<not> 1 / 2 < \<bar>mu_at b k j\<bar>"
  using lll_reduced_row [of \<delta> b k] by (simp add: size_reduced_row_def list_all_iff not_less)

lemma lll_step_reduced:
  assumes red: "lll_reduced \<delta> (Basis s)" and ok: "control_ok s"
    and k: "cursor s < length (Basis s)"
  shows "Basis (lll_step \<delta> s) = Basis s \<and> Transform (lll_step \<delta> s) = Transform s \<and>
         (length (Basis s) \<le> cursor (lll_step \<delta> s) \<or>
          Suc (potential (length (Basis s)) (lll_step \<delta> s)) \<le> potential (length (Basis s)) s)"
proof (cases "phase s")
  case (SizeReduce c)
  show ?thesis
  proof (cases c)
    case 0
    with SizeReduce lll_reduced_row [OF red k] show ?thesis
      by (simp add: lll_step_def Let_def potential_def)
  next
    case (Suc j)
    with SizeReduce ok have "j < cursor s" by (simp add: control_ok_def)
    from lll_reduced_mu [OF red k this] SizeReduce Suc show ?thesis
      by (simp add: lll_step_def Let_def potential_def)
  qed
next
  case Lovasz
  from ok have "cursor s \<noteq> 0" by (simp add: control_ok_def)
  with lll_reduced_row [OF red k] have lov: "lovasz \<delta> (Basis s) (cursor s)" by simp
  let ?n = "length (Basis s)" and ?k = "cursor s"
  have "(?n - Suc ?k) * (?n + 3) + (?n + 3) = (?n - ?k) * (?n + 3)"
    using k by (simp add: Suc_diff_Suc [symmetric] del: Suc_diff_Suc)
  then have "Suc ((?n - Suc ?k) * (?n + 3) + (?k + 3)) \<le> (?n - ?k) * (?n + 3) + 1"
    using k by linarith
  with Lovasz lov show ?thesis
    by (simp add: lll_step_def Let_def potential_def)
qed

lemma lll_run_reduced_unchanged:
  assumes "lll_reduced \<delta> (Basis s)" "zero_row (Basis s) = None" "control_ok s"
    and "length (Basis s) \<le> cursor s \<or> potential (length (Basis s)) s \<le> budget"
  shows "lll_run budget \<delta> s = Inr (Basis s, Transform s)"
  using assms
proof (induction budget arbitrary: s)
  case 0
  have "0 < potential (length (Basis s)) s"
    by (simp add: potential_def split: phase.split)
  with 0 show ?case by simp
next
  case (Suc budget)
  show ?case
  proof (cases "length (Basis s) \<le> cursor s")
    case True
    with Suc.prems show ?thesis by simp
  next
    case False
    then have k: "cursor s < length (Basis s)" by simp
    from lll_step_reduced [OF Suc.prems(1,3) k]
    have st: "Basis (lll_step \<delta> s) = Basis s" "Transform (lll_step \<delta> s) = Transform s"
      "length (Basis s) \<le> cursor (lll_step \<delta> s) \<or>
          Suc (potential (length (Basis s)) (lll_step \<delta> s)) \<le> potential (length (Basis s)) s"
      by simp_all
    have "lll_run budget \<delta> (lll_step \<delta> s) = Inr (Basis (lll_step \<delta> s), Transform (lll_step \<delta> s))"
    proof (rule Suc.IH)
      show "lll_reduced \<delta> (Basis (lll_step \<delta> s))" using Suc.prems(1) st(1) by simp
      show "zero_row (Basis (lll_step \<delta> s)) = None" using Suc.prems(2) st(1) by simp
      show "control_ok (lll_step \<delta> s)" by (rule control_ok_step [OF Suc.prems(3)])
      show "length (Basis (lll_step \<delta> s)) \<le> cursor (lll_step \<delta> s) \<or>
          potential (length (Basis (lll_step \<delta> s))) (lll_step \<delta> s) \<le> budget"
        using st(3) Suc.prems(4) False unfolding st(1) by linarith
    qed
    with False Suc.prems(2) st show ?thesis by simp
  qed
qed

text \<open>
  Claim C9. A basis that is already \<open>\<delta>\<close>-LLL-reduced (no row of it is zero) is returned
  unchanged, with the identity as transform, by every run whose budget covers the
  \<open>n \<cdot> (n + 3)\<close> steps of checking it. The witness is scenario A.
\<close>

theorem reduce_idempotent:
  assumes "lll_reduced \<delta> b" "zero_row b = None" "1 / 4 < \<delta>" "\<delta> < 1"
    and "length b * (length b + 3) \<le> budget"
  shows "reduce budget b \<delta> = Inr (b, identity (length b))"
proof -
  let ?s = "initial_state b" and ?n = "length b"
  have "?n \<le> cursor ?s \<or> potential ?n ?s \<le> budget"
  proof (cases "?n \<le> 1")
    case True
    then show ?thesis by (simp add: initial_state_def)
  next
    case False
    then obtain n' where n': "?n = Suc n'" by (cases ?n) auto
    have "potential ?n ?s = n' * (?n + 3) + 3"
      by (simp add: potential_def initial_state_def n')
    also have "\<dots> \<le> ?n * (?n + 3)" by (simp add: n')
    finally show ?thesis using assms(5) by simp
  qed
  with lll_run_reduced_unchanged [of \<delta> ?s budget] assms(1,2) control_ok_initial [of b]
  have "lll_run budget \<delta> ?s = Inr (Basis ?s, Transform ?s)"
    by (simp add: initial_state_def)
  with assms(3,4) show ?thesis
    by (simp add: reduce_def initial_state_def)
qed

lemma scenario_A_reduced: "lll_reduced (3 / 4) scenario_A" "zero_row scenario_A = None"
  by code_simp+

theorem reduce_idempotent_witness:
  "lll_reduced (3 / 4) scenario_A \<and> zero_row scenario_A = None \<and>
   reduce 100 scenario_A (3 / 4) = Inr ([[1, 0], [0, 1]], [[1, 0], [0, 1]])"
proof -
  have "reduce 100 scenario_A (3 / 4) = Inr (scenario_A, identity (length scenario_A))"
    by (rule reduce_idempotent [OF scenario_A_reduced]) (simp_all add: scenario_A_def)
  moreover have "scenario_A = [[1, 0], [0, 1]]" "identity (length scenario_A) = [[1, 0], [0, 1]]"
    by (simp_all add: scenario_A_def identity_def upt_3)
  ultimately show ?thesis using scenario_A_reduced by simp
qed

section \<open>Incremental updates against \<open>initialize\<close>\<close>

lemma length_vsub [simp]: "length (vsub u v) = min (length u) (length v)"
  by (simp add: vsub_def)

lemma length_vadd [simp]: "length (vadd u v) = min (length u) (length v)"
  by (simp add: vadd_def)

lemma length_smult [simp]: "length (smult c v) = length v"
  by (simp add: smult_def)

lemma nth_vsub: "t < length u \<Longrightarrow> t < length v \<Longrightarrow> vsub u v ! t = u ! t - v ! t"
  by (simp add: vsub_def)

lemma nth_vadd: "t < length u \<Longrightarrow> t < length v \<Longrightarrow> vadd u v ! t = u ! t + v ! t"
  by (simp add: vadd_def)

lemma nth_smult: "t < length v \<Longrightarrow> smult c v ! t = c * v ! t"
  by (simp add: smult_def)

lemma dot_sum_n:
  "length u = n \<Longrightarrow> length v = n \<Longrightarrow> dot u v = (\<Sum>t<n. u ! t * v ! t)"
  by (simp add: dot_def sum_list_sum_nth atLeast0LessThan)

lemma dot_commute: "length u = length v \<Longrightarrow> dot u v = dot v u"
  by (simp add: dot_sum_n [of u "length u"] dot_sum_n [of v "length u"] mult.commute)

lemma dot_vsub_left:
  assumes "length u = n" "length v = n" "length w = n"
  shows "dot (vsub u v) w = dot u w - dot v w"
  using assms by (simp add: dot_sum_n [of _ n] nth_vsub sum_subtractf algebra_simps)

lemma dot_vadd_left:
  assumes "length u = n" "length v = n" "length w = n"
  shows "dot (vadd u v) w = dot u w + dot v w"
  using assms by (simp add: dot_sum_n [of _ n] nth_vadd sum.distrib algebra_simps)

lemma dot_smult_left:
  assumes "length u = n" "length w = n"
  shows "dot (smult c u) w = c * dot u w"
  using assms by (simp add: dot_sum_n [of _ n] nth_smult sum_distrib_left algebra_simps)

lemma dot_vsub_right:
  assumes "length u = n" "length v = n" "length w = n"
  shows "dot w (vsub u v) = dot w u - dot w v"
  using assms by (simp add: dot_sum_n [of _ n] nth_vsub sum_subtractf algebra_simps)

lemma dot_vadd_right:
  assumes "length u = n" "length v = n" "length w = n"
  shows "dot w (vadd u v) = dot w u + dot w v"
  using assms by (simp add: dot_sum_n [of _ n] nth_vadd sum.distrib algebra_simps)

lemma dot_smult_right:
  assumes "length u = n" "length w = n"
  shows "dot w (smult c u) = c * dot w u"
  using assms by (simp add: dot_sum_n [of _ n] nth_smult sum_distrib_left algebra_simps)

lemma orthogonalize_Nil [simp]: "orthogonalize x [] = x"
  by (simp add: orthogonalize_def)

lemma orthogonalize_snoc:
  "orthogonalize x (acc @ [s]) = vsub (orthogonalize x acc) (smult (dot x s / dot s s) s)"
  by (simp add: orthogonalize_def)

lemma length_orthogonalize:
  "length x = n \<Longrightarrow> rectangular n acc \<Longrightarrow> length (orthogonalize x acc) = n"
  by (induction acc rule: rev_induct) (simp_all add: orthogonalize_snoc rectangular_def)

lemma nth_orthogonalize:
  assumes "length x = n" "rectangular n acc" "t < n"
  shows "orthogonalize x acc ! t
      = x ! t - (\<Sum>l<length acc. dot x (acc ! l) / dot (acc ! l) (acc ! l) * acc ! l ! t)"
  using assms(2)
proof (induction acc rule: rev_induct)
  case Nil
  then show ?case by simp
next
  case (snoc s acc)
  then have rect: "rectangular n acc" and s: "length s = n"
    by (simp_all add: rectangular_def)
  have len: "length (orthogonalize x acc) = n"
    by (rule length_orthogonalize [OF assms(1) rect])
  have "(\<Sum>l<length acc. dot x ((acc @ [s]) ! l) / dot ((acc @ [s]) ! l) ((acc @ [s]) ! l)
          * (acc @ [s]) ! l ! t)
      = (\<Sum>l<length acc. dot x (acc ! l) / dot (acc ! l) (acc ! l) * acc ! l ! t)"
    by (rule sum.cong) (simp_all add: nth_append)
  with snoc.IH [OF rect] len s assms(3) show ?case
    by (simp add: orthogonalize_snoc nth_vsub nth_smult)
qed

lemma dot_orthogonalize:
  assumes "length x = n" "rectangular n acc" "length y = n"
  shows "dot y (orthogonalize x acc)
      = dot y x - (\<Sum>l<length acc. dot x (acc ! l) / dot (acc ! l) (acc ! l) * dot y (acc ! l))"
  using assms(2)
proof (induction acc rule: rev_induct)
  case Nil
  then show ?case by simp
next
  case (snoc s acc)
  then have rect: "rectangular n acc" and s: "length s = n"
    by (simp_all add: rectangular_def)
  have len: "length (orthogonalize x acc) = n"
    by (rule length_orthogonalize [OF assms(1) rect])
  have "(\<Sum>l<length acc. dot x ((acc @ [s]) ! l) / dot ((acc @ [s]) ! l) ((acc @ [s]) ! l)
          * dot y ((acc @ [s]) ! l))
      = (\<Sum>l<length acc. dot x (acc ! l) / dot (acc ! l) (acc ! l) * dot y (acc ! l))"
    by (rule sum.cong) (simp_all add: nth_append)
  with snoc.IH [OF rect] len s assms(3) show ?case
    by (simp add: orthogonalize_snoc dot_vsub_right [of _ n] dot_smult_right [of _ n])
qed

lemma gso_from_nth:
  "i < length xs \<Longrightarrow>
     gso_from acc xs ! (length acc + i)
       = orthogonalize (xs ! i) (take (length acc + i) (gso_from acc xs))"
proof (induction xs arbitrary: acc i)
  case Nil
  then show ?case by simp
next
  case (Cons x xs)
  let ?w = "orthogonalize x acc"
  obtain zs where zs: "gso_from (acc @ [?w]) xs = (acc @ [?w]) @ zs"
    using gso_from_prefix [of "acc @ [?w]" xs] by auto
  show ?case
  proof (cases i)
    case 0
    then show ?thesis by (simp add: zs nth_append)
  next
    case (Suc i')
    with Cons.prems have "i' < length xs" by simp
    from Cons.IH [OF this, of "acc @ [?w]"] Suc show ?thesis by simp
  qed
qed

lemma gso_nth:
  "i < length b \<Longrightarrow> gso b ! i = orthogonalize (map of_int (b ! i)) (take i (gso b))"
  using gso_from_nth [of i "map (map of_int) b" "[]"] by (simp add: gso_def)

lemma rectangular_gso_from:
  "rectangular n acc \<Longrightarrow> rectangular n xs \<Longrightarrow> rectangular n (gso_from acc xs)"
proof (induction xs arbitrary: acc)
  case Nil
  then show ?case by simp
next
  case (Cons x xs)
  then have "length (orthogonalize x acc) = n"
    by (intro length_orthogonalize) (simp_all add: rectangular_def)
  with Cons show ?case by (simp add: rectangular_def)
qed

lemma rectangular_gso: "rectangular n b \<Longrightarrow> rectangular n (gso b)"
  unfolding gso_def
  by (rule rectangular_gso_from) (simp_all add: rectangular_def list_all_iff)

lemma rectangular_take: "rectangular n m \<Longrightarrow> rectangular n (take k m)"
  by (auto simp: rectangular_def list_all_iff dest: in_set_takeD)

lemma length_gso_nth: "rectangular n b \<Longrightarrow> i < length b \<Longrightarrow> length (gso b ! i) = n"
  using rectangular_nth [OF rectangular_gso] by simp

lemma full_rank_nth:
  "full_rank b \<Longrightarrow> i < length b \<Longrightarrow> dot (gso b ! i) (gso b ! i) \<noteq> 0"
  by (simp add: full_rank_def initialize_def Let_def list_all_length)

text \<open>The expansion of a basis vector along the orthogonalised vectors, under a product.\<close>

lemma dot_gso_nth:
  assumes "rectangular n b" "i < length b" "length y = n"
  shows "dot y (gso b ! i) = dot y (map of_int (b ! i))
      - (\<Sum>l<i. dot (map of_int (b ! i)) (gso b ! l) / dot (gso b ! l) (gso b ! l)
                * dot y (gso b ! l))"
proof -
  have len: "length (map rat_of_int (b ! i)) = n"
    using assms by (simp add: rectangular_nth)
  have rect: "rectangular n (take i (gso b))"
    by (rule rectangular_take [OF rectangular_gso [OF assms(1)]])
  have "dot y (gso b ! i) = dot y (orthogonalize (map of_int (b ! i)) (take i (gso b)))"
    using assms(2) by (simp add: gso_nth)
  also have "\<dots> = dot y (map of_int (b ! i))
      - (\<Sum>l<length (take i (gso b)).
           dot (map of_int (b ! i)) (take i (gso b) ! l)
             / dot (take i (gso b) ! l) (take i (gso b) ! l) * dot y (take i (gso b) ! l))"
    by (rule dot_orthogonalize [OF len rect assms(3)])
  also have "\<dots> = dot y (map of_int (b ! i))
      - (\<Sum>l<i. dot (map of_int (b ! i)) (gso b ! l) / dot (gso b ! l) (gso b ! l)
                * dot y (gso b ! l))"
    using assms(2) by (simp add: min_absorb2)
  finally show ?thesis .
qed

lemma gso_orthogonal_less:
  assumes "rectangular n b" "full_rank b"
  shows "j < length b \<Longrightarrow> i < j \<Longrightarrow> dot (gso b ! i) (gso b ! j) = 0"
proof (induction j arbitrary: i rule: less_induct)
  case (less j)
  let ?x = "map rat_of_int (b ! j)"
  have leni: "length (gso b ! i) = n"
    using assms(1) less.prems by (simp add: length_gso_nth)
  have lenx: "length ?x = n"
    using assms(1) less.prems by (simp add: rectangular_nth)
  have orth: "dot (gso b ! i) (gso b ! l) = 0" if "l < j" "l \<noteq> i" for l
  proof (cases "l < i")
    case True
    have "dot (gso b ! l) (gso b ! i) = 0"
      using less.IH [of i l] less.prems True by simp
    moreover have "length (gso b ! l) = n"
      using assms(1) less.prems that by (simp add: length_gso_nth)
    ultimately show ?thesis using leni by (simp add: dot_commute)
  next
    case False
    with that have "i < l" by simp
    with less.IH [of l i] less.prems that show ?thesis by simp
  qed
  have "(\<Sum>l<j. dot ?x (gso b ! l) / dot (gso b ! l) (gso b ! l) * dot (gso b ! i) (gso b ! l))
      = (\<Sum>l<j. if l = i then dot ?x (gso b ! i) else 0)"
  proof (rule sum.cong)
    fix l assume "l \<in> {..<j}"
    then have l: "l < j" by simp
    show "dot ?x (gso b ! l) / dot (gso b ! l) (gso b ! l) * dot (gso b ! i) (gso b ! l)
        = (if l = i then dot ?x (gso b ! i) else 0)"
    proof (cases "l = i")
      case True
      with full_rank_nth [OF assms(2), of i] less.prems show ?thesis by simp
    next
      case False
      with orth [OF l] show ?thesis by simp
    qed
  qed simp
  also have "\<dots> = dot ?x (gso b ! i)"
    using less.prems by simp
  finally have "dot (gso b ! i) (gso b ! j) = dot (gso b ! i) ?x - dot ?x (gso b ! i)"
    using dot_gso_nth [OF assms(1) less.prems(1) leni] by simp
  then show ?case
    using leni lenx by (simp add: dot_commute)
qed

lemma gso_orthogonal:
  assumes "rectangular n b" "full_rank b" "i < length b" "j < length b" "i \<noteq> j"
  shows "dot (gso b ! i) (gso b ! j) = 0"
proof (cases "i < j")
  case True
  with assms show ?thesis by (simp add: gso_orthogonal_less)
next
  case False
  with assms have "j < i" by simp
  with assms have "dot (gso b ! j) (gso b ! i) = 0" by (simp add: gso_orthogonal_less)
  with assms show ?thesis by (simp add: dot_commute length_gso_nth)
qed

text \<open>A basis vector against the orthogonalised vectors of its own and later rows.\<close>

lemma dot_basis_gso:
  assumes "rectangular n b" "full_rank b" "j < length b" "l < length b" "j \<le> l"
  shows "dot (map of_int (b ! j)) (gso b ! l) = (if j = l then dot (gso b ! j) (gso b ! j) else 0)"
proof -
  let ?x = "map rat_of_int (b ! j)"
  have lenl: "length (gso b ! l) = n" and lenx: "length ?x = n"
    using assms by (simp_all add: length_gso_nth rectangular_nth)
  have "(\<Sum>t<j. dot ?x (gso b ! t) / dot (gso b ! t) (gso b ! t) * dot (gso b ! l) (gso b ! t)) = 0"
  proof (rule sum.neutral, rule ballI)
    fix t assume "t \<in> {..<j}"
    with assms have "dot (gso b ! l) (gso b ! t) = 0"
      by (intro gso_orthogonal [OF assms(1,2)]) simp_all
    then show "dot ?x (gso b ! t) / dot (gso b ! t) (gso b ! t) * dot (gso b ! l) (gso b ! t) = 0"
      by simp
  qed
  with dot_gso_nth [OF assms(1,3) lenl]
  have "dot (gso b ! l) (gso b ! j) = dot (gso b ! l) ?x" by simp
  then have "dot ?x (gso b ! l) = dot (gso b ! l) (gso b ! j)"
    using lenl lenx by (simp add: dot_commute)
  then show ?thesis
    using assms gso_orthogonal [OF assms(1,2), of l j] by auto
qed

lemma nth_row_combine:
  "r < length m \<Longrightarrow>
     row_combine i j q m ! r = (if r = i then vsub (m ! i) (smult q (m ! j)) else m ! r)"
  by (simp add: row_combine_def nth_list_update)

lemma rectangular_row_combine:
  assumes "rectangular n m" "i < length m" "j < length m"
  shows "rectangular n (row_combine i j q m)"
proof -
  have len: "length (vsub (m ! i) (smult q (m ! j))) = n"
    using assms by (simp add: rectangular_nth)
  have "length (row_combine i j q m ! r) = n" if "r < length m" for r
    using that len rectangular_nth [OF assms(1) that] by (simp add: nth_row_combine)
  then show ?thesis
    by (simp add: rectangular_def list_all_length)
qed

lemma of_int_vsub_smult:
  "map rat_of_int (vsub u (smult q v)) = vsub (map of_int u) (smult (of_int q) (map of_int v))"
  by (simp add: vsub_def smult_def zip_map1 zip_map2 case_prod_unfold)

lemma take_eq_nth:
  assumes "r \<le> length xs" "r \<le> length ys" "\<And>i. i < r \<Longrightarrow> xs ! i = ys ! i"
  shows "take r xs = take r ys"
  using assms by (intro nth_equalityI) simp_all

text \<open>A basis vector is the sum of its components along the orthogonalised vectors up to
  any later row.\<close>

lemma basis_expansion:
  assumes rect: "rectangular n b" and full: "full_rank b"
    and ji: "j < i" "i \<le> length b" and t: "t < n"
  shows "(\<Sum>l<i. dot (map of_int (b ! j)) (gso b ! l) / dot (gso b ! l) (gso b ! l) * gso b ! l ! t)
      = rat_of_int (b ! j ! t)"
proof -
  let ?x = "map rat_of_int (b ! j)"
  let ?f = "\<lambda>l. dot ?x (gso b ! l) / dot (gso b ! l) (gso b ! l) * gso b ! l ! t"
  from ji have j: "j < length b" by simp
  have lenx: "length ?x = n" "length (b ! j) = n"
    using rect j by (simp_all add: rectangular_nth)
  have "sum ?f {0..<Suc j} + sum ?f {Suc j..<i} = sum ?f {0..<i}"
    using ji by (intro sum.atLeastLessThan_concat) simp_all
  then have "sum ?f {..<i} = sum ?f {..<j} + ?f j + sum ?f {Suc j..<i}"
    by (simp add: atLeast0LessThan)
  moreover have "sum ?f {Suc j..<i} = 0"
  proof (rule sum.neutral, rule ballI)
    fix l assume "l \<in> {Suc j..<i}"
    with ji have "dot ?x (gso b ! l) = 0"
      using dot_basis_gso [OF rect full j, of l] by simp
    then show "?f l = 0" by simp
  qed
  moreover have "?f j = gso b ! j ! t"
    using dot_basis_gso [OF rect full j j] full_rank_nth [OF full j] by simp
  moreover have "gso b ! j ! t = ?x ! t - sum ?f {..<j}"
  proof -
    have "gso b ! j ! t = orthogonalize ?x (take j (gso b)) ! t"
      using j by (simp add: gso_nth)
    also have "\<dots> = ?x ! t - (\<Sum>l<length (take j (gso b)).
        dot ?x (take j (gso b) ! l) / dot (take j (gso b) ! l) (take j (gso b) ! l)
          * take j (gso b) ! l ! t)"
      by (rule nth_orthogonalize [OF lenx(1) rectangular_take [OF rectangular_gso [OF rect]] t])
    also have "\<dots> = ?x ! t - sum ?f {..<j}"
      using j by (simp add: min_absorb2)
    finally show ?thesis .
  qed
  ultimately show ?thesis
    using lenx t by simp
qed

lemma gso_row_combine:
  assumes rect: "rectangular n b" and full: "full_rank b" and ji: "j < i" "i < length b"
  shows "gso (row_combine i j q b) = gso b"
proof -
  let ?b' = "row_combine i j q b"
  have rect': "rectangular n ?b'"
    using rect ji by (intro rectangular_row_combine) simp_all
  have row: "gso ?b' ! r = gso b ! r" if "r < length b" for r
    using that
  proof (induction r rule: less_induct)
    case (less r)
    have tk: "take r (gso ?b') = take r (gso b)"
      using less by (intro take_eq_nth) simp_all
    show ?case
    proof (cases "r = i")
      case False
      with less.prems tk show ?thesis
        by (simp add: gso_nth nth_row_combine)
    next
      case True
      let ?xi = "map rat_of_int (b ! i)" and ?xj = "map rat_of_int (b ! j)"
      let ?x' = "vsub ?xi (smult (of_int q) ?xj)"
      have len: "length ?xi = n" "length ?xj = n" "length ?x' = n"
        using rect ji by (simp_all add: rectangular_nth)
      have rt: "rectangular n (take i (gso b))"
        by (rule rectangular_take [OF rectangular_gso [OF rect]])
      have x': "map rat_of_int (?b' ! i) = ?x'"
        using ji by (simp add: nth_row_combine of_int_vsub_smult)
      have "orthogonalize ?x' (take i (gso b)) = orthogonalize ?xi (take i (gso b))"
      proof (rule nth_equalityI)
        show "length (orthogonalize ?x' (take i (gso b)))
            = length (orthogonalize ?xi (take i (gso b)))"
          by (simp add: length_orthogonalize [OF len(3) rt] length_orthogonalize [OF len(1) rt])
      next
        fix t assume "t < length (orthogonalize ?x' (take i (gso b)))"
        then have t: "t < n" by (simp add: length_orthogonalize [OF len(3) rt])
        have dl: "dot ?x' (gso b ! l) = dot ?xi (gso b ! l) - of_int q * dot ?xj (gso b ! l)"
          if "l < i" for l
        proof -
          have "length (gso b ! l) = n"
            using rect that ji by (simp add: length_gso_nth)
          then show ?thesis
            using len
            by (simp add: dot_vsub_left [of _ n] dot_smult_left [of _ n])
        qed
        have "(\<Sum>l<i. dot ?x' (gso b ! l) / dot (gso b ! l) (gso b ! l) * gso b ! l ! t)
            = (\<Sum>l<i. dot ?xi (gso b ! l) / dot (gso b ! l) (gso b ! l) * gso b ! l ! t)
              - of_int q * (\<Sum>l<i. dot ?xj (gso b ! l) / dot (gso b ! l) (gso b ! l) * gso b ! l ! t)"
          by (simp add: dl sum_subtractf sum_distrib_left diff_divide_distrib algebra_simps)
        also have "\<dots> = (\<Sum>l<i. dot ?xi (gso b ! l) / dot (gso b ! l) (gso b ! l) * gso b ! l ! t)
              - of_int q * rat_of_int (b ! j ! t)"
          using basis_expansion [OF rect full ji(1) _ t] ji(2) by simp
        finally have "?x' ! t - (\<Sum>l<i. dot ?x' (gso b ! l) / dot (gso b ! l) (gso b ! l) * gso b ! l ! t)
            = ?xi ! t - (\<Sum>l<i. dot ?xi (gso b ! l) / dot (gso b ! l) (gso b ! l) * gso b ! l ! t)"
          using len t rect ji by (simp add: nth_vsub nth_smult rectangular_nth)
        moreover have "orthogonalize ?x' (take i (gso b)) ! t
            = ?x' ! t - (\<Sum>l<i. dot ?x' (gso b ! l) / dot (gso b ! l) (gso b ! l) * gso b ! l ! t)"
          using nth_orthogonalize [OF len(3) rt t] ji by (simp add: min_absorb2)
        moreover have "orthogonalize ?xi (take i (gso b)) ! t
            = ?xi ! t - (\<Sum>l<i. dot ?xi (gso b ! l) / dot (gso b ! l) (gso b ! l) * gso b ! l ! t)"
          using nth_orthogonalize [OF len(1) rt t] ji by (simp add: min_absorb2)
        ultimately show "orthogonalize ?x' (take i (gso b)) ! t
            = orthogonalize ?xi (take i (gso b)) ! t"
          by (simp only:)
      qed
      with True tk x' ji show ?thesis
        by (simp add: gso_nth)
    qed
  qed
  show ?thesis
    by (rule nth_equalityI) (simp_all add: row)
qed

lemma gs_mu_nth:
  "r < length b \<Longrightarrow> l < r \<Longrightarrow>
     gs_mu (initialize b) ! r ! l
       = dot (map of_int (b ! r)) (gso b ! l) / dot (gso b ! l) (gso b ! l)"
  by (simp add: initialize_def Let_def)

lemma gs_mu_row:
  "r < length b \<Longrightarrow>
     gs_mu (initialize b) ! r
       = map (\<lambda>l. dot (map of_int (b ! r)) (gso b ! l) / dot (gso b ! l) (gso b ! l)) [0..<r]"
  by (simp add: initialize_def Let_def)

lemma length_gs_mu [simp]: "length (gs_mu (initialize b)) = length b"
  by (simp add: initialize_def Let_def)

lemma gs_B_initialize: "gs_B (initialize b) = map (\<lambda>v. dot v v) (gso b)"
  by (simp add: initialize_def Let_def)

lemma gs_ortho_initialize: "gs_ortho (initialize b) = gso b"
  by (simp add: initialize_def Let_def)

lemma update_after_combine_initialize:
  assumes rect: "rectangular n b" and full: "full_rank b" and ji: "j < i" "i < length b"
  shows "update_after_combine i j q (initialize b) = initialize (row_combine i j q b)"
proof -
  let ?b' = "row_combine i j q b"
  let ?mu = "gs_mu (initialize b)"
  let ?row = "map (\<lambda>l. if l < j then ?mu ! i ! l - of_int q * ?mu ! j ! l
                        else if l = j then ?mu ! i ! l - of_int q
                        else ?mu ! i ! l) [0..<i]"
  have g: "gso ?b' = gso b"
    by (rule gso_row_combine [OF rect full ji])
  from ji have j: "j < length b" by simp
  have "gs_mu (initialize ?b') = ?mu[i := ?row]"
  proof (rule nth_equalityI)
    show "length (gs_mu (initialize ?b')) = length (?mu[i := ?row])" by simp
  next
    fix r assume "r < length (gs_mu (initialize ?b'))"
    then have r: "r < length b" by simp
    show "gs_mu (initialize ?b') ! r = ?mu[i := ?row] ! r"
    proof (cases "r = i")
      case False
      with r show ?thesis
        by (simp add: gs_mu_row g nth_row_combine)
    next
      case True
      let ?xi = "map rat_of_int (b ! i)" and ?xj = "map rat_of_int (b ! j)"
      have len: "length ?xi = n" "length ?xj = n"
        using rect ji by (simp_all add: rectangular_nth)
      have entry: "dot (map of_int (?b' ! i)) (gso b ! l) / dot (gso b ! l) (gso b ! l)
          = (if l < j then ?mu ! i ! l - of_int q * ?mu ! j ! l
             else if l = j then ?mu ! i ! l - of_int q else ?mu ! i ! l)" if l: "l < i" for l
      proof -
        have ll: "l < length b" using l ji by simp
        have lenl: "length (gso b ! l) = n"
          using rect ll by (simp add: length_gso_nth)
        have "dot (map of_int (?b' ! i)) (gso b ! l)
            = dot ?xi (gso b ! l) - of_int q * dot ?xj (gso b ! l)"
          using ji len lenl
          by (simp add: nth_row_combine of_int_vsub_smult dot_vsub_left [of _ n]
              dot_smult_left [of _ n])
        then have eq: "dot (map of_int (?b' ! i)) (gso b ! l) / dot (gso b ! l) (gso b ! l)
            = ?mu ! i ! l - of_int q * (dot ?xj (gso b ! l) / dot (gso b ! l) (gso b ! l))"
          using l ji by (simp add: gs_mu_nth diff_divide_distrib)
        show ?thesis
        proof (cases "l < j")
          case True
          with eq j show ?thesis by (simp add: gs_mu_nth)
        next
          case False
          then have "j \<le> l" by simp
          from dot_basis_gso [OF rect full j ll this] full_rank_nth [OF full j]
          have "dot ?xj (gso b ! l) / dot (gso b ! l) (gso b ! l) = (if l = j then 1 else 0)"
            by auto
          with eq False show ?thesis by simp
        qed
      qed
      have "gs_mu (initialize ?b') ! i
          = map (\<lambda>l. dot (map of_int (?b' ! i)) (gso b ! l) / dot (gso b ! l) (gso b ! l)) [0..<i]"
        using ji by (simp add: gs_mu_row g)
      also have "\<dots> = ?row"
        by (rule map_cong) (simp_all add: entry)
      finally show ?thesis using True ji by simp
    qed
  qed
  then show ?thesis
    by (simp add: update_after_combine_def Let_def)
       (simp add: initialize_def Let_def g)
qed

lemma nth_row_swap:
  "Suc k < length m \<Longrightarrow> r < length m \<Longrightarrow>
     row_swap k m ! r = (if r = k then m ! Suc k else if r = Suc k then m ! k else m ! r)"
  by (simp add: row_swap_def nth_list_update)

lemma take_gso_row_swap: "take k (gso (row_swap k b)) = take k (gso b)"
  using gso_take [of k "row_swap k b"] gso_take [of k b] by (simp add: take_row_swap)

lemma dot_self_nonneg: "0 \<le> dot w (w :: rat list)"
  by (simp add: dot_sum_n [of w "length w"] sum_nonneg)

lemma gs_B_nth: "l < length b \<Longrightarrow> gs_B (initialize b) ! l = dot (gso b ! l) (gso b ! l)"
  by (simp add: gs_B_initialize)

lemma full_rank_pos: "full_rank b \<Longrightarrow> l < length b \<Longrightarrow> 0 < dot (gso b ! l) (gso b ! l)"
  using full_rank_nth [of b l] dot_self_nonneg [of "gso b ! l"] by simp

lemma swap_coeff_initialize:
  "Suc k < length b \<Longrightarrow>
     swap_coeff (initialize b) k
       = dot (map of_int (b ! Suc k)) (gso b ! k) / dot (gso b ! k) (gso b ! k)"
  by (simp add: swap_coeff_def gs_mu_nth)

lemma swap_norm_initialize:
  "Suc k < length b \<Longrightarrow>
     swap_norm (initialize b) k
       = dot (gso b ! Suc k) (gso b ! Suc k)
         + (swap_coeff (initialize b) k)\<^sup>2 * dot (gso b ! k) (gso b ! k)"
  by (simp add: swap_norm_def gs_B_nth)

lemma swap_norm_pos:
  assumes "full_rank b" "Suc k < length b"
  shows "0 < swap_norm (initialize b) k"
proof -
  have "0 < dot (gso b ! Suc k) (gso b ! Suc k)" "0 \<le> dot (gso b ! k) (gso b ! k)"
    using assms by (simp_all add: full_rank_pos dot_self_nonneg)
  then have "0 < dot (gso b ! Suc k) (gso b ! Suc k)
      + (swap_coeff (initialize b) k)\<^sup>2 * dot (gso b ! k) (gso b ! k)"
    by (intro add_pos_nonneg mult_nonneg_nonneg) simp_all
  with assms(2) show ?thesis by (simp add: swap_norm_initialize)
qed

lemma length_swap_upper:
  "rectangular n b \<Longrightarrow> Suc k < length b \<Longrightarrow> length (swap_upper (initialize b) k) = n"
  by (simp add: swap_upper_def gs_ortho_initialize length_gso_nth)

lemma length_swap_lower:
  "rectangular n b \<Longrightarrow> Suc k < length b \<Longrightarrow> length (swap_lower (initialize b) k) = n"
  by (simp add: swap_lower_def gs_ortho_initialize length_gso_nth length_swap_upper)

lemma take_Suc_gso: "k < length b \<Longrightarrow> take (Suc k) (gso b) = take k (gso b) @ [gso b ! k]"
  by (simp add: take_Suc_conv_app_nth)

text \<open>After the swap, row \<open>k\<close> is orthogonalised against the rows before it only.\<close>

lemma gso_swap_upper:
  assumes rect: "rectangular n b" and k: "Suc k < length b"
  shows "gso (row_swap k b) ! k = swap_upper (initialize b) k"
proof -
  let ?x = "map rat_of_int (b ! Suc k)"
  let ?w = "orthogonalize ?x (take k (gso b))"
  have lenx: "length ?x = n" using rect k by (simp add: rectangular_nth)
  have lenw: "length ?w = n"
    by (rule length_orthogonalize [OF lenx rectangular_take [OF rectangular_gso [OF rect]]])
  have lenu: "length (gso b ! k) = n" using rect k by (simp add: length_gso_nth)
  have w: "gso (row_swap k b) ! k = ?w"
    using k by (simp add: gso_nth take_gso_row_swap nth_row_swap)
  have "gso b ! Suc k = orthogonalize ?x (take k (gso b) @ [gso b ! k])"
    using k by (simp add: gso_nth take_Suc_gso)
  also have "\<dots> = vsub ?w (smult (swap_coeff (initialize b) k) (gso b ! k))"
    using k by (simp add: orthogonalize_snoc swap_coeff_initialize)
  finally have v: "gso b ! Suc k = vsub ?w (smult (swap_coeff (initialize b) k) (gso b ! k))" .
  have "vadd (gso b ! Suc k) (smult (swap_coeff (initialize b) k) (gso b ! k)) = ?w"
    unfolding v using lenw lenu
    by (intro nth_equalityI) (simp_all add: nth_vadd nth_vsub nth_smult)
  with w show ?thesis
    by (simp add: swap_upper_def gs_ortho_initialize)
qed

lemma dot_swap_upper_right:
  assumes "rectangular n b" "Suc k < length b" "length y = n"
  shows "dot y (swap_upper (initialize b) k)
      = dot y (gso b ! Suc k) + swap_coeff (initialize b) k * dot y (gso b ! k)"
  using assms
  by (simp add: swap_upper_def gs_ortho_initialize dot_vadd_right [of _ n] dot_smult_right [of _ n]
      length_gso_nth)

lemma dot_swap_upper_left:
  assumes "rectangular n b" "Suc k < length b" "length y = n"
  shows "dot (swap_upper (initialize b) k) y
      = dot (gso b ! Suc k) y + swap_coeff (initialize b) k * dot (gso b ! k) y"
  using assms
  by (simp add: swap_upper_def gs_ortho_initialize dot_vadd_left [of _ n] dot_smult_left [of _ n]
      length_gso_nth)

lemma dot_swap_upper_self:
  assumes rect: "rectangular n b" and full: "full_rank b" and k: "Suc k < length b"
  shows "dot (swap_upper (initialize b) k) (swap_upper (initialize b) k)
      = swap_norm (initialize b) k"
proof -
  have o: "dot (gso b ! k) (gso b ! Suc k) = 0" "dot (gso b ! Suc k) (gso b ! k) = 0"
    using gso_orthogonal [OF rect full, of k "Suc k"] gso_orthogonal [OF rect full, of "Suc k" k] k
    by simp_all
  show ?thesis
    using k rect o
    by (simp add: dot_swap_upper_right [OF rect k] dot_swap_upper_left [OF rect k]
        length_swap_upper length_gso_nth swap_norm_initialize power2_eq_square algebra_simps)
qed

lemma dot_swap_lower_right:
  assumes "rectangular n b" "Suc k < length b" "length y = n"
  shows "dot y (swap_lower (initialize b) k)
      = dot y (gso b ! k) - swap_back (initialize b) k * dot y (swap_upper (initialize b) k)"
  using assms
  by (simp add: swap_lower_def gs_ortho_initialize dot_vsub_right [of _ n] dot_smult_right [of _ n]
      length_gso_nth length_swap_upper)

lemma dot_swap_lower_left:
  assumes "rectangular n b" "Suc k < length b" "length y = n"
  shows "dot (swap_lower (initialize b) k) y
      = dot (gso b ! k) y - swap_back (initialize b) k * dot (swap_upper (initialize b) k) y"
  using assms
  by (simp add: swap_lower_def gs_ortho_initialize dot_vsub_left [of _ n] dot_smult_left [of _ n]
      length_gso_nth length_swap_upper)

lemma dot_basis_swap_upper:
  assumes rect: "rectangular n b" and full: "full_rank b" and k: "Suc k < length b"
  shows "dot (map of_int (b ! k)) (swap_upper (initialize b) k)
      = swap_coeff (initialize b) k * dot (gso b ! k) (gso b ! k)"
proof -
  have "dot (map of_int (b ! k)) (gso b ! Suc k) = 0"
    using dot_basis_gso [OF rect full, of k "Suc k"] k by simp
  moreover have "dot (map of_int (b ! k)) (gso b ! k) = dot (gso b ! k) (gso b ! k)"
    using dot_basis_gso [OF rect full, of k k] k by simp
  ultimately show ?thesis
    using k rect by (simp add: dot_swap_upper_right [OF rect k] rectangular_nth)
qed

lemma swap_back_initialize:
  "Suc k < length b \<Longrightarrow>
     swap_back (initialize b) k
       = swap_coeff (initialize b) k * dot (gso b ! k) (gso b ! k) / swap_norm (initialize b) k"
  by (simp add: swap_back_def gs_B_nth)

text \<open>After the swap, row \<open>k + 1\<close> is the old \<open>b*_k\<close> less its component along the new
  \<open>b*_k\<close>.\<close>

lemma gso_swap_lower:
  assumes rect: "rectangular n b" and full: "full_rank b" and k: "Suc k < length b"
  shows "gso (row_swap k b) ! Suc k = swap_lower (initialize b) k"
proof -
  let ?x = "map rat_of_int (b ! k)"
  let ?u' = "swap_upper (initialize b) k"
  have tk: "take (Suc k) (gso (row_swap k b)) = take k (gso b) @ [?u']"
    using k take_Suc_gso [of k "row_swap k b"]
    by (simp add: take_gso_row_swap gso_swap_upper [OF rect k])
  have "gso (row_swap k b) ! Suc k = orthogonalize ?x (take k (gso b) @ [?u'])"
    using k by (simp add: gso_nth [of "Suc k"] tk nth_row_swap)
  also have "\<dots> = vsub (orthogonalize ?x (take k (gso b))) (smult (dot ?x ?u' / dot ?u' ?u') ?u')"
    by (simp add: orthogonalize_snoc)
  also have "orthogonalize ?x (take k (gso b)) = gso b ! k"
    using k by (simp add: gso_nth)
  also have "dot ?x ?u' / dot ?u' ?u' = swap_back (initialize b) k"
    using k
    by (simp add: dot_basis_swap_upper [OF rect full k] dot_swap_upper_self [OF rect full k]
        swap_back_initialize)
  finally show ?thesis
    by (simp add: swap_lower_def gs_ortho_initialize)
qed

lemma dot_gso_swap_upper:
  assumes rect: "rectangular n b" and full: "full_rank b" and k: "Suc k < length b"
  shows "dot (gso b ! k) (swap_upper (initialize b) k)
      = swap_coeff (initialize b) k * dot (gso b ! k) (gso b ! k)"
    and "dot (swap_upper (initialize b) k) (gso b ! k)
      = swap_coeff (initialize b) k * dot (gso b ! k) (gso b ! k)"
proof -
  have o: "dot (gso b ! k) (gso b ! Suc k) = 0" "dot (gso b ! Suc k) (gso b ! k) = 0"
    using gso_orthogonal [OF rect full, of k "Suc k"] gso_orthogonal [OF rect full, of "Suc k" k] k
    by simp_all
  show "dot (gso b ! k) (swap_upper (initialize b) k)
      = swap_coeff (initialize b) k * dot (gso b ! k) (gso b ! k)"
    using k rect o by (simp add: dot_swap_upper_right [OF rect k] length_gso_nth)
  show "dot (swap_upper (initialize b) k) (gso b ! k)
      = swap_coeff (initialize b) k * dot (gso b ! k) (gso b ! k)"
    using k rect o by (simp add: dot_swap_upper_left [OF rect k] length_gso_nth)
qed

lemma dot_swap_lower_self:
  assumes rect: "rectangular n b" and full: "full_rank b" and k: "Suc k < length b"
  shows "dot (swap_lower (initialize b) k) (swap_lower (initialize b) k)
      = dot (gso b ! k) (gso b ! k) * dot (gso b ! Suc k) (gso b ! Suc k)
          / swap_norm (initialize b) k"
proof -
  let ?st = "initialize b"
  define Bu where "Bu = dot (gso b ! k) (gso b ! k)"
  define Bv where "Bv = dot (gso b ! Suc k) (gso b ! Suc k)"
  define m where "m = swap_coeff ?st k"
  define D where "D = swap_norm ?st k"
  have D: "D = Bv + m\<^sup>2 * Bu" "D \<noteq> 0"
    using swap_norm_initialize [OF k] swap_norm_pos [OF full k]
    by (simp_all add: D_def Bv_def Bu_def m_def)
  have nu: "swap_back ?st k = m * Bu / D"
    using swap_back_initialize [OF k] by (simp add: m_def Bu_def D_def)
  have "dot (swap_lower ?st k) (swap_lower ?st k)
      = Bu - (m * Bu / D) * (m * Bu) - (m * Bu / D) * (m * Bu - (m * Bu / D) * D)"
    using k rect
    by (simp add: dot_swap_lower_right [OF rect k] dot_swap_lower_left [OF rect k]
        length_swap_lower length_swap_upper length_gso_nth dot_gso_swap_upper [OF rect full k]
        dot_swap_upper_self [OF rect full k] nu Bu_def [symmetric] m_def [symmetric]
        D_def [symmetric])
  also have "\<dots> = Bu * Bv / D"
    using D by (simp add: field_simps power2_eq_square)
  finally show ?thesis by (simp add: Bu_def Bv_def D_def)
qed

lemma nth_swap_upper:
  assumes "rectangular n b" "Suc k < length b" "t < n"
  shows "swap_upper (initialize b) k ! t
      = gso b ! Suc k ! t + swap_coeff (initialize b) k * gso b ! k ! t"
  using assms
  by (simp add: swap_upper_def gs_ortho_initialize nth_vadd nth_smult length_gso_nth)

lemma nth_swap_lower:
  assumes "rectangular n b" "Suc k < length b" "t < n"
  shows "swap_lower (initialize b) k ! t
      = gso b ! k ! t - swap_back (initialize b) k * swap_upper (initialize b) k ! t"
  using assms
  by (simp add: swap_lower_def gs_ortho_initialize nth_vsub nth_smult length_gso_nth
      length_swap_upper)

text \<open>The two new vectors span what the two old ones span: the components of any vector
  along them add up to the same.\<close>

lemma swap_projection:
  assumes rect: "rectangular n b" and full: "full_rank b" and k: "Suc k < length b"
    and x: "length x = n" and t: "t < n"
  shows "dot x (swap_upper (initialize b) k)
           / dot (swap_upper (initialize b) k) (swap_upper (initialize b) k)
           * swap_upper (initialize b) k ! t
       + dot x (swap_lower (initialize b) k)
           / dot (swap_lower (initialize b) k) (swap_lower (initialize b) k)
           * swap_lower (initialize b) k ! t
       = dot x (gso b ! k) / dot (gso b ! k) (gso b ! k) * gso b ! k ! t
       + dot x (gso b ! Suc k) / dot (gso b ! Suc k) (gso b ! Suc k) * gso b ! Suc k ! t"
proof -
  let ?st = "initialize b"
  define Bu where "Bu = dot (gso b ! k) (gso b ! k)"
  define Bv where "Bv = dot (gso b ! Suc k) (gso b ! Suc k)"
  define m where "m = swap_coeff ?st k"
  define D where "D = swap_norm ?st k"
  define a where "a = dot x (gso b ! k)"
  define c where "c = dot x (gso b ! Suc k)"
  define ut where "ut = gso b ! k ! t"
  define vt where "vt = gso b ! Suc k ! t"
  have nz: "Bu \<noteq> 0" "Bv \<noteq> 0" "D \<noteq> 0"
    using full_rank_nth [OF full, of k] full_rank_nth [OF full, of "Suc k"] k
      swap_norm_pos [OF full k]
    by (simp_all add: Bu_def Bv_def D_def)
  have D: "D = Bv + m * m * Bu"
    using swap_norm_initialize [OF k]
    by (simp add: D_def Bv_def Bu_def m_def power2_eq_square)
  have nu: "swap_back ?st k = m * Bu / D"
    using swap_back_initialize [OF k] by (simp add: m_def Bu_def D_def)
  have xu': "dot x (swap_upper ?st k) = c + m * a"
    by (simp add: dot_swap_upper_right [OF rect k x] c_def a_def m_def)
  have xv': "dot x (swap_lower ?st k) = a - m * Bu / D * (c + m * a)"
    by (simp add: dot_swap_lower_right [OF rect k x] xu' nu a_def)
  have u't: "swap_upper ?st k ! t = vt + m * ut"
    by (simp add: nth_swap_upper [OF rect k t] vt_def ut_def m_def)
  have v't: "swap_lower ?st k ! t = ut - m * Bu / D * (vt + m * ut)"
    by (simp add: nth_swap_lower [OF rect k t] u't nu ut_def)
  have u'u': "dot (swap_upper ?st k) (swap_upper ?st k) = D"
    by (simp add: dot_swap_upper_self [OF rect full k] D_def)
  have v'v': "dot (swap_lower ?st k) (swap_lower ?st k) = Bu * Bv / D"
    by (simp add: dot_swap_lower_self [OF rect full k] Bu_def Bv_def D_def)
  have nz': "Bv + m * m * Bu \<noteq> 0" using nz(3) D by simp
  have e1: "a - m * Bu / D * (c + m * a) = (a * Bv - m * Bu * c) / D"
    unfolding D using nz' by (simp add: field_simps)
  have e2: "ut - m * Bu / D * (vt + m * ut) = (Bv * ut - m * Bu * vt) / D"
    unfolding D using nz' by (simp add: field_simps)
  have e3: "(a * Bv - m * Bu * c) / D / (Bu * Bv / D) = a / Bu - m * c / Bv"
    using nz by (simp add: field_simps)
  have poly: "Bu * Bv * ((c + m * a) * (vt + m * ut))
        + (a * Bv - m * c * Bu) * (Bv * ut - m * Bu * vt)
      = D * (a * Bv * ut + c * Bu * vt)"
    unfolding D by (simp add: algebra_simps)
  have lhs: "(c + m * a) / D * (vt + m * ut)
        + (a / Bu - m * c / Bv) * ((Bv * ut - m * Bu * vt) / D)
      = (Bu * Bv * ((c + m * a) * (vt + m * ut))
          + (a * Bv - m * c * Bu) * (Bv * ut - m * Bu * vt)) / (D * Bu * Bv)"
    using nz by (simp add: field_simps)
  have rhs: "a / Bu * ut + c / Bv * vt = D * (a * Bv * ut + c * Bu * vt) / (D * Bu * Bv)"
    using nz by (simp add: field_simps)
  have e4: "(c + m * a) / D * (vt + m * ut)
      + (a / Bu - m * c / Bv) * ((Bv * ut - m * Bu * vt) / D)
      = a / Bu * ut + c / Bv * vt"
    unfolding lhs rhs poly ..
  have "(c + m * a) / D * (vt + m * ut)
      + (a - m * Bu / D * (c + m * a)) / (Bu * Bv / D) * (ut - m * Bu / D * (vt + m * ut))
      = a / Bu * ut + c / Bv * vt"
    unfolding e1 e2 e3 by (rule e4)
  then show ?thesis
    unfolding xu' xv' u't v't u'u' v'v'
    by (simp add: a_def c_def Bu_def Bv_def ut_def vt_def)
qed

lemma gso_row_swap_nth:
  assumes rect: "rectangular n b" and full: "full_rank b" and k: "Suc k < length b"
  shows "r < length b \<Longrightarrow>
     gso (row_swap k b) ! r
       = (if r = k then swap_upper (initialize b) k
          else if r = Suc k then swap_lower (initialize b) k
          else gso b ! r)"
proof (induction r rule: less_induct)
  case (less r)
  let ?b' = "row_swap k b" and ?st = "initialize b"
  let ?new = "\<lambda>l. if l = k then swap_upper ?st k else if l = Suc k then swap_lower ?st k
                   else gso b ! l"
  consider "r < k" | "r = k" | "r = Suc k" | "Suc k < r" by linarith
  then show ?case
  proof cases
    case 1
    have "gso ?b' ! r = take k (gso ?b') ! r" using 1 by simp
    also have "\<dots> = gso b ! r" using 1 by (simp add: take_gso_row_swap)
    finally show ?thesis using 1 by simp
  next
    case 2
    then show ?thesis by (simp add: gso_swap_upper [OF rect k])
  next
    case 3
    then show ?thesis by (simp add: gso_swap_lower [OF rect full k])
  next
    case 4
    let ?x = "map rat_of_int (b ! r)"
    let ?A = "take r (gso b)" and ?A' = "take r (gso ?b')"
    have lenx: "length ?x = n" using rect less.prems by (simp add: rectangular_nth)
    have rect': "rectangular n ?b'" by (rule rectangular_row_swap [OF rect k])
    have rA: "rectangular n ?A" "rectangular n ?A'"
      by (rule rectangular_take [OF rectangular_gso [OF rect]],
          rule rectangular_take [OF rectangular_gso [OF rect']])
    have A': "?A' ! l = ?new l" if "l < r" for l
      using that less.IH [of l] less.prems by simp
    have row: "map rat_of_int (?b' ! r) = ?x"
      using 4 k less.prems by (simp add: nth_row_swap)
    have "orthogonalize ?x ?A' = orthogonalize ?x ?A"
    proof (rule nth_equalityI)
      show "length (orthogonalize ?x ?A') = length (orthogonalize ?x ?A)"
        by (simp add: length_orthogonalize [OF lenx rA(1)] length_orthogonalize [OF lenx rA(2)])
    next
      fix t assume "t < length (orthogonalize ?x ?A')"
      then have t: "t < n" by (simp add: length_orthogonalize [OF lenx rA(2)])
      let ?g = "\<lambda>l. dot ?x (gso b ! l) / dot (gso b ! l) (gso b ! l) * gso b ! l ! t"
      let ?g' = "\<lambda>l. dot ?x (?new l) / dot (?new l) (?new l) * ?new l ! t"
      have sub: "{k, Suc k} \<subseteq> {..<r}" using 4 by auto
      have kk: "k \<noteq> Suc k" by simp
      have "sum ?g' {..<r} = sum ?g' ({..<r} - {k, Suc k}) + sum ?g' {k, Suc k}"
        by (rule sum.subset_diff [OF sub]) simp
      also have "sum ?g' ({..<r} - {k, Suc k}) = sum ?g ({..<r} - {k, Suc k})"
        by (rule sum.cong) auto
      also have "sum ?g' {k, Suc k} = sum ?g {k, Suc k}"
        using swap_projection [OF rect full k lenx t] by simp
      also have "sum ?g ({..<r} - {k, Suc k}) + sum ?g {k, Suc k} = sum ?g {..<r}"
        by (rule sum.subset_diff [OF sub, symmetric]) simp
      finally have sums: "sum ?g' {..<r} = sum ?g {..<r}" .
      have "orthogonalize ?x ?A' ! t
          = ?x ! t - (\<Sum>l<length ?A'. dot ?x (?A' ! l) / dot (?A' ! l) (?A' ! l) * ?A' ! l ! t)"
        by (rule nth_orthogonalize [OF lenx rA(2) t])
      also have "(\<Sum>l<length ?A'. dot ?x (?A' ! l) / dot (?A' ! l) (?A' ! l) * ?A' ! l ! t)
          = sum ?g' {..<r}"
        using less.prems by (intro sum.cong) (simp_all add: min_absorb2 A' del: nth_take)
      also have "sum ?g' {..<r} = sum ?g {..<r}" by (rule sums)
      also have "sum ?g {..<r}
          = (\<Sum>l<length ?A. dot ?x (?A ! l) / dot (?A ! l) (?A ! l) * ?A ! l ! t)"
        using less.prems by (intro sum.cong) (simp_all add: min_absorb2)
      also have "?x ! t - (\<Sum>l<length ?A. dot ?x (?A ! l) / dot (?A ! l) (?A ! l) * ?A ! l ! t)
          = orthogonalize ?x ?A ! t"
        by (rule nth_orthogonalize [OF lenx rA(1) t, symmetric])
      finally show "orthogonalize ?x ?A' ! t = orthogonalize ?x ?A ! t" .
    qed
    then have "gso ?b' ! r = gso b ! r"
      using less.prems by (simp add: gso_nth row)
    with 4 show ?thesis by simp
  qed
qed

lemma gso_row_swap:
  assumes "rectangular n b" "full_rank b" "Suc k < length b"
  shows "gso (row_swap k b)
      = (gso b)[k := swap_upper (initialize b) k, Suc k := swap_lower (initialize b) k]"
  using assms(3)
  by (intro nth_equalityI) (simp_all add: gso_row_swap_nth [OF assms] nth_list_update)

lemma gs_B_row_swap:
  assumes rect: "rectangular n b" and full: "full_rank b" and k: "Suc k < length b"
  shows "gs_B (initialize (row_swap k b))
      = (gs_B (initialize b))[k := swap_norm (initialize b) k,
           Suc k := gs_B (initialize b) ! k * gs_B (initialize b) ! Suc k
                      / swap_norm (initialize b) k]"
proof (rule nth_equalityI)
  show "length (gs_B (initialize (row_swap k b)))
      = length ((gs_B (initialize b))[k := swap_norm (initialize b) k,
           Suc k := gs_B (initialize b) ! k * gs_B (initialize b) ! Suc k
                      / swap_norm (initialize b) k])"
    by (simp add: gs_B_initialize)
next
  fix l assume "l < length (gs_B (initialize (row_swap k b)))"
  then have l: "l < length b" by (simp add: gs_B_initialize)
  show "gs_B (initialize (row_swap k b)) ! l
      = (gs_B (initialize b))[k := swap_norm (initialize b) k,
           Suc k := gs_B (initialize b) ! k * gs_B (initialize b) ! Suc k
                      / swap_norm (initialize b) k] ! l"
  proof -
    consider "l = k" | "l = Suc k" | "l \<noteq> k" "l \<noteq> Suc k" by blast
    then show ?thesis
    proof cases
      case 1
      have "gs_B (initialize (row_swap k b)) ! k = swap_norm (initialize b) k"
        using k by (simp add: gs_B_nth gso_row_swap_nth [OF rect full k]
            dot_swap_upper_self [OF rect full k])
      with 1 k show ?thesis by (simp add: gs_B_initialize)
    next
      case 2
      have "gs_B (initialize (row_swap k b)) ! Suc k
          = gs_B (initialize b) ! k * gs_B (initialize b) ! Suc k / swap_norm (initialize b) k"
        using k by (simp add: gs_B_nth gso_row_swap_nth [OF rect full k]
            dot_swap_lower_self [OF rect full k])
      with 2 k show ?thesis by (simp add: gs_B_initialize)
    next
      case 3
      with l k show ?thesis
        by (simp add: gs_B_nth gso_row_swap_nth [OF rect full k])
    qed
  qed
qed

lemma swap_mu_entries:
  assumes rect: "rectangular n b" and full: "full_rank b" and k: "Suc k < length b"
    and x: "length x = n"
  shows "dot x (swap_upper (initialize b) k)
           / dot (swap_upper (initialize b) k) (swap_upper (initialize b) k)
       = dot x (gso b ! Suc k) / dot (gso b ! Suc k) (gso b ! Suc k)
         + swap_back (initialize b) k
           * (dot x (gso b ! k) / dot (gso b ! k) (gso b ! k)
              - swap_coeff (initialize b) k
                * (dot x (gso b ! Suc k) / dot (gso b ! Suc k) (gso b ! Suc k)))"
    and "dot x (swap_lower (initialize b) k)
           / dot (swap_lower (initialize b) k) (swap_lower (initialize b) k)
       = dot x (gso b ! k) / dot (gso b ! k) (gso b ! k)
         - swap_coeff (initialize b) k
           * (dot x (gso b ! Suc k) / dot (gso b ! Suc k) (gso b ! Suc k))"
proof -
  let ?st = "initialize b"
  define Bu where "Bu = dot (gso b ! k) (gso b ! k)"
  define Bv where "Bv = dot (gso b ! Suc k) (gso b ! Suc k)"
  define m where "m = swap_coeff ?st k"
  define D where "D = swap_norm ?st k"
  define a where "a = dot x (gso b ! k)"
  define c where "c = dot x (gso b ! Suc k)"
  have nz: "Bu \<noteq> 0" "Bv \<noteq> 0" "D \<noteq> 0"
    using full_rank_nth [OF full, of k] full_rank_nth [OF full, of "Suc k"] k
      swap_norm_pos [OF full k]
    by (simp_all add: Bu_def Bv_def D_def)
  have D: "D = Bv + m * m * Bu"
    using swap_norm_initialize [OF k]
    by (simp add: D_def Bv_def Bu_def m_def power2_eq_square)
  have nu: "swap_back ?st k = m * Bu / D"
    using swap_back_initialize [OF k] by (simp add: m_def Bu_def D_def)
  have xu': "dot x (swap_upper ?st k) = c + m * a"
    by (simp add: dot_swap_upper_right [OF rect k x] c_def a_def m_def)
  have xv': "dot x (swap_lower ?st k) = a - m * Bu / D * (c + m * a)"
    by (simp add: dot_swap_lower_right [OF rect k x] xu' nu a_def)
  have u'u': "dot (swap_upper ?st k) (swap_upper ?st k) = D"
    by (simp add: dot_swap_upper_self [OF rect full k] D_def)
  have v'v': "dot (swap_lower ?st k) (swap_lower ?st k) = Bu * Bv / D"
    by (simp add: dot_swap_lower_self [OF rect full k] Bu_def Bv_def D_def)
  have nz': "Bv + m * m * Bu \<noteq> 0" using nz(3) D by simp
  have e1: "a - m * Bu / D * (c + m * a) = (a * Bv - m * Bu * c) / D"
    unfolding D using nz' by (simp add: field_simps)
  have e3: "(a * Bv - m * Bu * c) / D / (Bu * Bv / D) = a / Bu - m * c / Bv"
    using nz by (simp add: field_simps)
  have p2: "Bv * (c + m * a) = c * D + m * (a * Bv - m * c * Bu)"
    unfolding D by (simp add: algebra_simps)
  have "c / Bv + m * Bu / D * (a / Bu - m * (c / Bv))
      = (c * D + m * (a * Bv - m * c * Bu)) / (D * Bv)"
    using nz by (simp add: field_simps)
  also have "\<dots> = Bv * (c + m * a) / (D * Bv)"
    by (simp only: p2)
  also have "\<dots> = (c + m * a) / D"
    using nz by simp
  finally have e5: "(c + m * a) / D = c / Bv + m * Bu / D * (a / Bu - m * (c / Bv))" by simp
  show "dot x (swap_upper ?st k) / dot (swap_upper ?st k) (swap_upper ?st k)
       = dot x (gso b ! Suc k) / dot (gso b ! Suc k) (gso b ! Suc k)
         + swap_back ?st k
           * (dot x (gso b ! k) / dot (gso b ! k) (gso b ! k)
              - swap_coeff ?st k * (dot x (gso b ! Suc k) / dot (gso b ! Suc k) (gso b ! Suc k)))"
    unfolding xu' u'u' nu
    using e5 by (simp add: a_def c_def Bu_def Bv_def m_def)
  show "dot x (swap_lower ?st k) / dot (swap_lower ?st k) (swap_lower ?st k)
       = dot x (gso b ! k) / dot (gso b ! k) (gso b ! k)
         - swap_coeff ?st k * (dot x (gso b ! Suc k) / dot (gso b ! Suc k) (gso b ! Suc k))"
    unfolding xv' v'v' e1 e3
    by (simp add: a_def c_def Bu_def Bv_def m_def)
qed

lemma gs_mu_row_swap_nth:
  assumes rect: "rectangular n b" and full: "full_rank b" and k: "Suc k < length b"
    and r: "r < length b"
  shows "gs_mu (initialize (row_swap k b)) ! r = swap_mu_row (initialize b) k r"
proof -
  let ?b' = "row_swap k b" and ?st = "initialize b"
  let ?mu = "gs_mu ?st"
  let ?F = "\<lambda>i l. dot (map rat_of_int (b ! i)) (gso b ! l) / dot (gso b ! l) (gso b ! l)"
  have new: "gs_mu (initialize ?b') ! r
      = map (\<lambda>l. dot (map of_int (?b' ! r)) (gso ?b' ! l) / dot (gso ?b' ! l) (gso ?b' ! l)) [0..<r]"
    using r by (simp add: gs_mu_row)
  have g: "gso ?b' ! l
      = (if l = k then swap_upper ?st k else if l = Suc k then swap_lower ?st k else gso b ! l)"
    if "l < length b" for l
    using gso_row_swap_nth [OF rect full k that] .
  have old: "?mu ! i = map (?F i) [0..<i]" if "i < length b" for i
    using that by (simp add: gs_mu_row)
  have lenx: "length (map rat_of_int (b ! i)) = n" if "i < length b" for i
    using rect that by (simp add: rectangular_nth)
  consider "r < k" | "r = k" | "r = Suc k" | "Suc k < r" by linarith
  then show ?thesis
  proof cases
    case 1
    have "gs_mu (initialize ?b') ! r = map (?F r) [0..<r]"
      unfolding new using 1 k r by (intro map_cong) (simp_all add: g nth_row_swap)
    with 1 r show ?thesis by (simp add: swap_mu_row_def Let_def old)
  next
    case 2
    note new
    also have "map (\<lambda>l. dot (map of_int (?b' ! r)) (gso ?b' ! l) / dot (gso ?b' ! l) (gso ?b' ! l))
        [0..<r] = map (?F (Suc k)) [0..<k]"
      unfolding 2 using k by (intro map_cong) (simp_all add: g nth_row_swap)
    also have "\<dots> = take k (?mu ! Suc k)"
      using k by (simp add: old take_map del: upt_Suc)
    finally show ?thesis using 2 by (simp add: swap_mu_row_def Let_def)
  next
    case 3
    have last: "dot (map of_int (b ! k)) (swap_upper ?st k)
        / dot (swap_upper ?st k) (swap_upper ?st k) = swap_back ?st k"
      using k
      by (simp add: dot_basis_swap_upper [OF rect full k] dot_swap_upper_self [OF rect full k]
          swap_back_initialize)
    note new
    also have "map (\<lambda>l. dot (map of_int (?b' ! r)) (gso ?b' ! l) / dot (gso ?b' ! l) (gso ?b' ! l))
        [0..<r]
        = map (\<lambda>l. dot (map of_int (b ! k)) (gso ?b' ! l) / dot (gso ?b' ! l) (gso ?b' ! l))
            [0..<Suc k]"
      unfolding 3 using k by (simp add: nth_row_swap)
    also have "\<dots> = map (?F k) [0..<k] @ [swap_back ?st k]"
      using k by (simp add: g last)
    also have "\<dots> = ?mu ! k @ [swap_back ?st k]"
      using k by (simp add: old)
    finally show ?thesis using 3 by (simp add: swap_mu_row_def Let_def)
  next
    case 4
    let ?row = "(?mu ! r)[k := ?mu ! r ! Suc k
                             + swap_back ?st k * (?mu ! r ! k - swap_coeff ?st k * ?mu ! r ! Suc k),
                       Suc k := ?mu ! r ! k - swap_coeff ?st k * ?mu ! r ! Suc k]"
    have x: "map rat_of_int (?b' ! r) = map rat_of_int (b ! r)"
      using 4 k r by (simp add: nth_row_swap)
    have mk: "?mu ! r ! k = ?F r k" "?mu ! r ! Suc k = ?F r (Suc k)"
      using 4 r by (simp_all add: gs_mu_nth)
    have "gs_mu (initialize ?b') ! r = ?row"
    proof (rule nth_equalityI)
      show "length (gs_mu (initialize ?b') ! r) = length ?row"
        using r by (simp add: new old)
    next
      fix l assume "l < length (gs_mu (initialize ?b') ! r)"
      then have l: "l < r" using r by (simp add: new)
      then have ll: "l < length b" using r by simp
      consider "l = k" | "l = Suc k" | "l \<noteq> k" "l \<noteq> Suc k" by blast
      then show "gs_mu (initialize ?b') ! r ! l = ?row ! l"
      proof cases
        case 1
        have "gs_mu (initialize ?b') ! r ! k
            = dot (map of_int (b ! r)) (swap_upper ?st k)
                / dot (swap_upper ?st k) (swap_upper ?st k)"
          using 4 k r by (simp add: new x g)
        also have "\<dots> = ?F r (Suc k)
            + swap_back ?st k * (?F r k - swap_coeff ?st k * ?F r (Suc k))"
          by (rule swap_mu_entries(1) [OF rect full k lenx [OF r]])
        finally show ?thesis
          using 1 4 r by (simp add: mk old)
      next
        case 2
        have "gs_mu (initialize ?b') ! r ! Suc k
            = dot (map of_int (b ! r)) (swap_lower ?st k)
                / dot (swap_lower ?st k) (swap_lower ?st k)"
          using 4 k r by (simp add: new x g)
        also have "\<dots> = ?F r k - swap_coeff ?st k * ?F r (Suc k)"
          by (rule swap_mu_entries(2) [OF rect full k lenx [OF r]])
        finally show ?thesis
          using 2 4 r by (simp add: mk old)
      next
        case 3
        with l ll r show ?thesis
          by (simp add: new x g old)
      qed
    qed
    with 4 show ?thesis by (simp add: swap_mu_row_def Let_def)
  qed
qed

lemma update_after_swap_initialize:
  assumes rect: "rectangular n b" and full: "full_rank b" and k: "Suc k < length b"
  shows "update_after_swap k (initialize b) = initialize (row_swap k b)"
proof -
  have "gs_mu (initialize (row_swap k b)) = map (swap_mu_row (initialize b) k) [0..<length b]"
    by (rule nth_equalityI) (simp_all add: gs_mu_row_swap_nth [OF rect full k])
  moreover have "gs_ortho (initialize (row_swap k b))
      = (gso b)[k := swap_upper (initialize b) k, Suc k := swap_lower (initialize b) k]"
    by (simp add: gs_ortho_initialize gso_row_swap [OF rect full k])
  moreover note gs_B_row_swap [OF rect full k]
  ultimately have "initialize (row_swap k b)
      = \<lparr>gs_ortho = (gso b)[k := swap_upper (initialize b) k, Suc k := swap_lower (initialize b) k],
         gs_mu = map (swap_mu_row (initialize b) k) [0..<length b],
         gs_B = (gs_B (initialize b))[k := swap_norm (initialize b) k,
           Suc k := gs_B (initialize b) ! k * gs_B (initialize b) ! Suc k
                      / swap_norm (initialize b) k]\<rparr>"
    by (intro gram_schmidt_state.equality) simp_all
  then show ?thesis
    by (simp add: update_after_swap_def gs_ortho_initialize)
qed

lemma full_rank_row_combine:
  assumes "rectangular n b" "full_rank b" "j < i" "i < length b"
  shows "full_rank (row_combine i j q b)"
  using assms(2) gso_row_combine [OF assms]
  by (simp add: full_rank_def gs_B_initialize)

lemma full_rank_row_swap:
  assumes rect: "rectangular n b" and full: "full_rank b" and k: "Suc k < length b"
  shows "full_rank (row_swap k b)"
proof -
  let ?st = "initialize b"
  have D: "swap_norm ?st k \<noteq> 0"
    using swap_norm_pos [OF full k] by simp
  have B: "gs_B ?st ! l \<noteq> 0" if "l < length b" for l
    using full that by (simp add: full_rank_def list_all_length gs_B_initialize)
  have len: "length (gs_B ?st) = length b"
    by (simp add: gs_B_initialize)
  have "(gs_B ?st)[k := swap_norm ?st k,
           Suc k := gs_B ?st ! k * gs_B ?st ! Suc k / swap_norm ?st k] ! l \<noteq> 0"
    if "l < length b" for l
    using that k D B [of k] B [of "Suc k"] B [OF that] len
    by (auto simp: nth_list_update)
  then have "gs_B (initialize (row_swap k b)) ! l \<noteq> 0" if "l < length b" for l
    using that by (simp add: gs_B_row_swap [OF rect full k])
  moreover have "length (gs_B (initialize (row_swap k b))) = length b"
    by (simp add: gs_B_initialize)
  ultimately show ?thesis
    by (simp add: full_rank_def list_all_length)
qed

lemma mutate_basis_ok:
  assumes "rectangular n b" "full_rank b" "valid_mutation (length b) m"
  shows "rectangular n (mutate_basis m b) \<and> full_rank (mutate_basis m b) \<and>
         length (mutate_basis m b) = length b"
proof (cases m)
  case (Combine i j q)
  with assms show ?thesis
    by (simp add: rectangular_row_combine full_rank_row_combine [of n])
next
  case (Swap k)
  with assms show ?thesis
    by (simp add: rectangular_row_swap full_rank_row_swap [of n])
qed

lemma mutate_state_initialize:
  assumes "rectangular n b" "full_rank b" "valid_mutation (length b) m"
  shows "mutate_state m (initialize b) = initialize (mutate_basis m b)"
proof (cases m)
  case (Combine i j q)
  with assms show ?thesis
    by (simp add: update_after_combine_initialize [of n])
next
  case (Swap k)
  with assms show ?thesis
    by (simp add: update_after_swap_initialize [of n])
qed

text \<open>
  Claim C4. Starting from \<open>initialize\<close> on a basis of full rank, after any sequence of
  row combinations and adjacent swaps of the basis, each mirrored by its incremental
  update, the state is the one \<open>initialize\<close> computes from the resulting basis: the same
  \<open>\<mu>\<close>, the same \<open>B\<close> and the same orthogonalised vectors, as exact rationals. The witness
  is the swap and the combination the reducer makes on scenario C.
\<close>

theorem incremental_equals_initialize:
  assumes "rectangular n b" "full_rank b" "list_all (valid_mutation (length b)) ms"
  shows "foldl (\<lambda>st m. mutate_state m st) (initialize b) ms
       = initialize (foldl (\<lambda>b m. mutate_basis m b) b ms)"
  using assms
proof (induction ms arbitrary: b)
  case Nil
  then show ?case by simp
next
  case (Cons m ms)
  then have m: "valid_mutation (length b) m" and ms: "list_all (valid_mutation (length b)) ms"
    by simp_all
  from mutate_basis_ok [OF Cons.prems(1,2) m]
  have ok: "rectangular n (mutate_basis m b)" "full_rank (mutate_basis m b)"
    "length (mutate_basis m b) = length b"
    by simp_all
  from Cons.IH [OF ok(1,2)] ms ok(3)
  have "foldl (\<lambda>st m. mutate_state m st) (initialize (mutate_basis m b)) ms
      = initialize (foldl (\<lambda>b m. mutate_basis m b) (mutate_basis m b) ms)"
    by simp
  then show ?case
    by (simp add: mutate_state_initialize [OF Cons.prems(1,2) m])
qed

lemma scenario_C_ok: "rectangular 2 scenario_C" "full_rank scenario_C"
  by code_simp+

lemma scenario_C_mutations:
  "list_all (valid_mutation (length scenario_C)) [Swap 0, Combine 1 0 2]"
  by code_simp

lemma scenario_C_incremental:
  "foldl (\<lambda>st m. mutate_state m st) (initialize scenario_C) [Swap 0, Combine 1 0 2]
     = \<lparr>gs_ortho = [[1, 29], [83984 / 421, - (2896 / 421)]],
        gs_mu = [[], [- (205 / 421)]], gs_B = [842, 16773632 / 421]\<rparr>"
  by code_simp

theorem incremental_equals_initialize_witness:
  "rectangular 2 scenario_C \<and> full_rank scenario_C \<and>
   foldl (\<lambda>b m. mutate_basis m b) scenario_C [Swap 0, Combine 1 0 2] = [[1, 29], [199, - 21]] \<and>
   initialize [[1, 29], [199, - 21]]
     = \<lparr>gs_ortho = [[1, 29], [83984 / 421, - (2896 / 421)]],
        gs_mu = [[], [- (205 / 421)]], gs_B = [842, 16773632 / 421]\<rparr>"
proof -
  have b: "foldl (\<lambda>b m. mutate_basis m b) scenario_C [Swap 0, Combine 1 0 2]
      = [[1, 29], [199, - 21]]"
    by code_simp
  from incremental_equals_initialize [OF scenario_C_ok scenario_C_mutations]
  show ?thesis
    unfolding scenario_C_incremental b using scenario_C_ok by simp
qed

end
